theory Spec2Isabelle
  imports Main "HOL-Library.Multiset"
begin

section \<open>Common ground: addresses and the error channel\<close>

text \<open>
  Both containers own heap memory through raw pointers. A pointer is an optional address
  (\<open>None\<close> is \<open>nullptr\<close>); the memory is an explicit store from addresses to what lives
  there, so that \<open>delete\<close> really removes an object and a stale pointer can be told from a
  live one.

  The exceptions of the source are values: \<open>logic_error\<close> carries the message the source
  passes to \<open>std::logic_error\<close>, \<open>range_error\<close> carries the two numbers that
  \<open>Array::operator[]\<close> prints into its message (the size, then the index). Reading or
  writing through a null pointer, through a pointer to freed memory or beyond a buffer is
  undefined behaviour in the source; the model makes each of them an error of its own, so
  that no theorem can silently step over it.
\<close>

type_synonym addr = nat

datatype error =
    logic_error string
  | range_error nat nat
  | bad_alloc
  | NullPointer
  | DanglingPointer
  | BufferOverrun

definition ebind :: "error + 'a \<Rightarrow> ('a \<Rightarrow> error + 'b) \<Rightarrow> error + 'b" where
  "ebind m f = (case m of Inl e \<Rightarrow> Inl e | Inr v \<Rightarrow> f v)"


text \<open>
  A loop of the source that walks a chain of pointers need not terminate (the chain may
  be a cycle), so the loops are partial functions: \<open>None\<close> is a loop that runs forever,
  \<open>Some (Inl e)\<close> one that stops on the error \<open>e\<close>, \<open>Some (Inr v)\<close> one that returns \<open>v\<close>.
  \<open>lift\<close> runs a straight-line step inside a loop, \<open>obind\<close> runs a loop inside a loop.
\<close>

definition lift :: "error + 'a \<Rightarrow> ('a \<Rightarrow> (error + 'b) option) \<Rightarrow> (error + 'b) option" where
  "lift m f = (case m of Inl e \<Rightarrow> Some (Inl e) | Inr v \<Rightarrow> f v)"

definition obind :: "(error + 'a) option \<Rightarrow> ('a \<Rightarrow> (error + 'b) option) \<Rightarrow> (error + 'b) option" where
  "obind m f = (case m of None \<Rightarrow> None | Some (Inl e) \<Rightarrow> Some (Inl e) | Some (Inr v) \<Rightarrow> f v)"

lemma lift_mono [partial_function_mono]:
  assumes "\<And>v. mono_option (\<lambda>f. C v f)"
  shows "mono_option (\<lambda>f. lift m (\<lambda>v. C v f))"
proof (cases m)
  case (Inl e)
  then show ?thesis
    by (simp add: lift_def option.const_mono)
next
  case (Inr v)
  then show ?thesis
    using assms [of v] by (simp add: lift_def)
qed

lemma obind_mono [partial_function_mono]:
  assumes mf: "mono_option B" and mg: "\<And>v. mono_option (\<lambda>f. C v f)"
  shows "mono_option (\<lambda>f. obind (B f) (\<lambda>v. C v f))"
proof (rule monotoneI)
  fix f g :: "'a \<Rightarrow> 'b option"
  assume fg: "fun_ord option_ord f g"
  with mf have B: "option_ord (B f) (B g)"
    by (rule monotoneD[of _ _ _ f g])
  from mg have C: "option_ord (C v f) (C v g)" for v
    by (rule monotoneD) (rule fg)
  show "option_ord (obind (B f) (\<lambda>v. C v f)) (obind (B g) (\<lambda>v. C v g))"
  proof (cases "B f")
    case None
    then show ?thesis
      by (simp add: obind_def flat_ord_def)
  next
    case (Some r)
    then have Bg: "B g = Some r"
      using B by (simp add: flat_ord_def)
    show ?thesis
    proof (cases r)
      case (Inl e)
      then show ?thesis
        using Some Bg by (simp add: obind_def flat_ord_def)
    next
      case (Inr v)
      then show ?thesis
        using Some Bg C [of v] by (simp add: obind_def)
    qed
  qed
qed


section \<open>ListContainer.h: the data\<close>

text \<open>
  A \<open>ListNode<T>\<close> is the record of its three fields, and the heap maps the address of
  every live node to it. A \<open>List<T>\<close> is the record of its three fields; the nodes it owns
  are in the heap. The element type is any linear order: the source asks \<open>T\<close> for \<open>==\<close>,
  \<open><\<close> and \<open>>\<close>.

  \<open>numberOfNodes\<close> is a \<open>size_t\<close>. It is modelled as a natural number: the source only
  ever adds to it what it links into the chain, and every decrement but one stands behind
  a test that the count is not zero. The decrement that is not guarded (in \<open>RemoveNode\<close>)
  is written with the wrap-around of a 64-bit \<open>size_t\<close>.
\<close>

record 'a ListNode =
  data :: 'a
  prevPtr :: "addr option"
  nextPtr :: "addr option"

type_synonym 'a heap = "addr \<rightharpoonup> 'a ListNode"

record List =
  firstPtr :: "addr option"
  lastPtr :: "addr option"
  numberOfNodes :: nat

text \<open>\<open>p->\<close>: the node a pointer denotes.\<close>

definition deref :: "'a heap \<Rightarrow> addr option \<Rightarrow> error + 'a ListNode" where
  "deref h p =
     (case p of
        None \<Rightarrow> Inl NullPointer
      | Some a \<Rightarrow> (case h a of None \<Rightarrow> Inl DanglingPointer | Some n \<Rightarrow> Inr n))"

definition get_data :: "'a heap \<Rightarrow> addr option \<Rightarrow> error + 'a" where
  "get_data h p = ebind (deref h p) (\<lambda>n. Inr (data n))"

definition get_prev :: "'a heap \<Rightarrow> addr option \<Rightarrow> error + addr option" where
  "get_prev h p = ebind (deref h p) (\<lambda>n. Inr (prevPtr n))"

definition get_next :: "'a heap \<Rightarrow> addr option \<Rightarrow> error + addr option" where
  "get_next h p = ebind (deref h p) (\<lambda>n. Inr (nextPtr n))"

text \<open>\<open>p->prevPtr = v\<close> and \<open>p->nextPtr = v\<close>.\<close>

definition set_prev :: "'a heap \<Rightarrow> addr option \<Rightarrow> addr option \<Rightarrow> error + 'a heap" where
  "set_prev h p v =
     (case p of
        None \<Rightarrow> Inl NullPointer
      | Some a \<Rightarrow>
          (case h a of
             None \<Rightarrow> Inl DanglingPointer
           | Some n \<Rightarrow> Inr (h(a \<mapsto> n\<lparr>prevPtr := v\<rparr>))))"

definition set_next :: "'a heap \<Rightarrow> addr option \<Rightarrow> addr option \<Rightarrow> error + 'a heap" where
  "set_next h p v =
     (case p of
        None \<Rightarrow> Inl NullPointer
      | Some a \<Rightarrow>
          (case h a of
             None \<Rightarrow> Inl DanglingPointer
           | Some n \<Rightarrow> Inr (h(a \<mapsto> n\<lparr>nextPtr := v\<rparr>))))"

text \<open>
  \<open>new ListNode<T>(data)\<close>: the allocator hands out the address \<open>a\<close>, which must not be
  in use; the constructor clears both links.
\<close>

definition new_node :: "'a heap \<Rightarrow> addr \<Rightarrow> 'a \<Rightarrow> error + 'a heap" where
  "new_node h a d =
     (if h a \<noteq> None then Inl bad_alloc
      else Inr (h(a \<mapsto> \<lparr>data = d, prevPtr = None, nextPtr = None\<rparr>)))"

text \<open>\<open>delete p\<close>: deleting \<open>nullptr\<close> does nothing, deleting twice is an error.\<close>

definition delete_node :: "'a heap \<Rightarrow> addr option \<Rightarrow> error + 'a heap" where
  "delete_node h p =
     (case p of
        None \<Rightarrow> Inr h
      | Some a \<Rightarrow> (case h a of None \<Rightarrow> Inl DanglingPointer | Some n \<Rightarrow> Inr (h(a := None))))"

definition size_t_dec :: "nat \<Rightarrow> nat" where
  "size_t_dec n = (if n = 0 then 2 ^ 64 - 1 else n - 1)"


section \<open>ListContainer.h: the operations\<close>

subsection \<open>Construction and status\<close>

text \<open>\<open>List()\<close>\<close>

definition List_default :: List where
  "List_default = \<lparr>firstPtr = None, lastPtr = None, numberOfNodes = 0\<rparr>"

definition isEmpty :: "List \<Rightarrow> bool" where
  "isEmpty l = (numberOfNodes l = 0)"

definition GetNodeCount :: "List \<Rightarrow> nat" where
  "GetNodeCount l = numberOfNodes l"

text \<open>\<open>operator==\<close> compares the two head pointers.\<close>

definition list_equal :: "List \<Rightarrow> List \<Rightarrow> bool" where
  "list_equal this anotherList = (firstPtr this = firstPtr anotherList)"

text \<open>
  \<open>List(List<T>&& anotherList)\<close>: the new list, and the source as the constructor leaves
  it.
\<close>

definition List_move :: "List \<Rightarrow> List \<times> List" where
  "List_move anotherList =
     (\<lparr>firstPtr = firstPtr anotherList, lastPtr = lastPtr anotherList,
       numberOfNodes = GetNodeCount anotherList\<rparr>,
      anotherList\<lparr>firstPtr := None, lastPtr := None, numberOfNodes := 0\<rparr>)"

text \<open>\<open>Append(const T& data)\<close>; \<open>a\<close> is the address \<open>new\<close> returns.\<close>

definition Append :: "'a heap \<Rightarrow> List \<Rightarrow> addr \<Rightarrow> 'a \<Rightarrow> error + ('a heap \<times> List)" where
  "Append h l a d =
     (if isEmpty l then
        ebind (new_node h a d) (\<lambda>h1.
        Inr (h1, l\<lparr>firstPtr := Some a, lastPtr := Some a, numberOfNodes := numberOfNodes l + 1\<rparr>))
      else
        ebind (new_node h a d) (\<lambda>h1.
        ebind (set_next h1 (lastPtr l) (Some a)) (\<lambda>h2.
        ebind (get_next h2 (lastPtr l)) (\<lambda>n1.
        ebind (set_prev h2 n1 (lastPtr l)) (\<lambda>h3.
        ebind (get_next h3 (lastPtr l)) (\<lambda>n2.
        Inr (h3, l\<lparr>lastPtr := n2, numberOfNodes := numberOfNodes l + 1\<rparr>)))))))"

text \<open>
  \<open>List(std::initializer_list<T>)\<close>: one \<open>Append\<close> per element, each with the address its
  \<open>new\<close> returns.
\<close>

fun Append_all :: "'a heap \<Rightarrow> List \<Rightarrow> (addr \<times> 'a) list \<Rightarrow> error + ('a heap \<times> List)" where
  "Append_all h l [] = Inr (h, l)"
| "Append_all h l ((a, d) # rest) = ebind (Append h l a d) (\<lambda>(h1, l1). Append_all h1 l1 rest)"

definition List_by_list :: "'a heap \<Rightarrow> (addr \<times> 'a) list \<Rightarrow> error + ('a heap \<times> List)" where
  "List_by_list h initializerList = Append_all h List_default initializerList"

subsection \<open>Removal\<close>

definition RemoveFirst :: "'a heap \<Rightarrow> List \<Rightarrow> error + ('a heap \<times> List)" where
  "RemoveFirst h l =
     (if \<not> isEmpty l then
        ebind (get_next h (firstPtr l)) (\<lambda>n.
        ebind (delete_node h (firstPtr l)) (\<lambda>h1.
        let l1 = l\<lparr>firstPtr := n, numberOfNodes := numberOfNodes l - 1\<rparr> in
        if n \<noteq> None then ebind (set_prev h1 n None) (\<lambda>h2. Inr (h2, l1))
        else Inr (h1, l1)))
      else Inr (h, l))"

definition RemoveLast :: "'a heap \<Rightarrow> List \<Rightarrow> error + ('a heap \<times> List)" where
  "RemoveLast h l =
     (if \<not> isEmpty l then
        ebind (get_prev h (lastPtr l)) (\<lambda>p.
        ebind (delete_node h (lastPtr l)) (\<lambda>h1.
        let l1 = l\<lparr>lastPtr := p, numberOfNodes := numberOfNodes l - 1\<rparr> in
        if p \<noteq> None then ebind (set_next h1 p None) (\<lambda>h2. Inr (h2, l1))
        else Inr (h1, l1)))
      else Inr (h, l))"


definition DetachNode :: "'a heap \<Rightarrow> List \<Rightarrow> addr option \<Rightarrow> error + ('a heap \<times> List)" where
  "DetachNode h l removingNode =
     (if isEmpty l then Inl (logic_error ''Empty list cannot have any nodes!'')
      else
        ebind (if removingNode = firstPtr l
               then ebind (get_next h removingNode) (\<lambda>n. Inr (h, l\<lparr>firstPtr := n\<rparr>))
               else ebind (get_prev h removingNode) (\<lambda>p.
                    ebind (get_next h removingNode) (\<lambda>n.
                    ebind (set_next h p n) (\<lambda>h1. Inr (h1, l))))) (\<lambda>(h1, l1).
        ebind (if removingNode = lastPtr l1
               then ebind (get_prev h1 removingNode) (\<lambda>p. Inr (h1, l1\<lparr>lastPtr := p\<rparr>))
               else ebind (get_next h1 removingNode) (\<lambda>n.
                    ebind (get_prev h1 removingNode) (\<lambda>p.
                    ebind (set_prev h1 n p) (\<lambda>h2. Inr (h2, l1))))) (\<lambda>(h2, l2).
        ebind (set_next h2 removingNode None) (\<lambda>h3.
        ebind (set_prev h3 removingNode None) (\<lambda>h4.
        Inr (h4, l2\<lparr>numberOfNodes := numberOfNodes l2 - 1\<rparr>))))))"










subsection \<open>Sorting\<close>

text \<open>
  \<open>ListNode<T>::isSorted()\<close>, the recursion from a node to the tail, and
  \<open>List<T>::isSorted()\<close>, which answers false for an empty list before it looks at any
  node.
\<close>

partial_function (option) node_isSorted :: "('a::linorder) heap \<Rightarrow> addr option \<Rightarrow> (error + bool) option" where
  "node_isSorted h this =
     lift (get_next h this) (\<lambda>n.
     if n = None then Some (Inr True)
     else
       lift (get_data h n) (\<lambda>dn.
       lift (get_data h this) (\<lambda>d.
       if dn < d then Some (Inr False)
       else node_isSorted h n)))"

declare node_isSorted.simps [code]

definition isSorted :: "('a::linorder) heap \<Rightarrow> List \<Rightarrow> (error + bool) option" where
  "isSorted h l = (if isEmpty l then Some (Inr False) else node_isSorted h (firstPtr l))"

partial_function (option) FindMinimum_from ::
    "('a::linorder) heap \<Rightarrow> addr option \<Rightarrow> addr option \<Rightarrow> (error + addr option) option" where
  "FindMinimum_from h currentNode minNode =
     (if currentNode \<noteq> None then
        lift (get_data h currentNode) (\<lambda>dc.
        lift (get_data h minNode) (\<lambda>dm.
        lift (get_next h currentNode) (\<lambda>n.
        FindMinimum_from h n (if dc < dm then currentNode else minNode))))
      else Some (Inr minNode))"

declare FindMinimum_from.simps [code]

definition FindMinimum :: "('a::linorder) heap \<Rightarrow> List \<Rightarrow> addr option \<Rightarrow> (error + addr option) option" where
  "FindMinimum h l beginByNode =
     (if beginByNode = None then Some (Inl (logic_error ''Start node cannot be a nullptr!''))
      else if isEmpty l then Some (Inl (logic_error ''List is empty!''))
      else lift (get_next h beginByNode) (\<lambda>n. FindMinimum_from h n beginByNode))"

definition SwapSuccessiveNodes ::
    "'a heap \<Rightarrow> List \<Rightarrow> addr option \<Rightarrow> addr option \<Rightarrow> error + ('a heap \<times> List)" where
  "SwapSuccessiveNodes h l firstNode secondNode =
     ebind (get_next h firstNode) (\<lambda>fn.
     if fn \<noteq> secondNode then Inl (logic_error ''Nodes are not successive!'')
     else
       ebind (get_prev h secondNode) (\<lambda>sp.
       if sp \<noteq> firstNode then Inl (logic_error ''Nodes are not successive!'')
       else
         ebind (get_prev h firstNode) (\<lambda>fp.
         ebind (set_prev h secondNode fp) (\<lambda>h1.
         ebind (get_next h1 secondNode) (\<lambda>sn.
         ebind (set_next h1 firstNode sn) (\<lambda>h2.
         ebind (if firstNode \<noteq> firstPtr l
                then ebind (get_prev h2 firstNode) (\<lambda>p.
                     ebind (set_next h2 p secondNode) (\<lambda>h3. Inr (h3, l)))
                else Inr (h2, l\<lparr>firstPtr := secondNode\<rparr>)) (\<lambda>(h3, l1).
         ebind (if secondNode \<noteq> lastPtr l1
                then ebind (get_next h3 secondNode) (\<lambda>n.
                     ebind (set_prev h3 n firstNode) (\<lambda>h4. Inr (h4, l1)))
                else Inr (h3, l1\<lparr>lastPtr := firstNode\<rparr>)) (\<lambda>(h4, l2).
         ebind (set_prev h4 firstNode secondNode) (\<lambda>h5.
         ebind (set_next h5 secondNode firstNode) (\<lambda>h6.
         Inr (h6, l2)))))))))))"

text \<open>The two halves of \<open>SwapNonSuccessiveNodes\<close>, named after their comments in the source.\<close>

definition update_previous_pointers ::
    "'a heap \<Rightarrow> List \<Rightarrow> addr option \<Rightarrow> addr option \<Rightarrow> error + ('a heap \<times> List)" where
  "update_previous_pointers h l firstNode secondNode =
     (if firstNode = firstPtr l then
        ebind (get_prev h secondNode) (\<lambda>sp.
        ebind (set_next h sp firstNode) (\<lambda>h1.
        ebind (get_prev h1 secondNode) (\<lambda>sp1.
        ebind (set_prev h1 firstNode sp1) (\<lambda>h2.
        ebind (set_prev h2 secondNode None) (\<lambda>h3.
        Inr (h3, l\<lparr>firstPtr := secondNode\<rparr>))))))
      else if secondNode = firstPtr l then
        ebind (get_prev h firstNode) (\<lambda>fp.
        ebind (set_next h fp secondNode) (\<lambda>h1.
        ebind (get_prev h1 firstNode) (\<lambda>fp1.
        ebind (set_prev h1 secondNode fp1) (\<lambda>h2.
        ebind (set_prev h2 firstNode None) (\<lambda>h3.
        Inr (h3, l\<lparr>firstPtr := firstNode\<rparr>))))))
      else
        ebind (get_prev h firstNode) (\<lambda>fp.
        ebind (set_next h fp secondNode) (\<lambda>h1.
        ebind (get_prev h1 secondNode) (\<lambda>sp.
        ebind (set_next h1 sp firstNode) (\<lambda>h2.
        ebind (get_prev h2 secondNode) (\<lambda>tempPtr.
        ebind (get_prev h2 firstNode) (\<lambda>fp2.
        ebind (set_prev h2 secondNode fp2) (\<lambda>h3.
        ebind (set_prev h3 firstNode tempPtr) (\<lambda>h4.
        Inr (h4, l))))))))))"

definition update_next_pointers ::
    "'a heap \<Rightarrow> List \<Rightarrow> addr option \<Rightarrow> addr option \<Rightarrow> error + ('a heap \<times> List)" where
  "update_next_pointers h l firstNode secondNode =
     (if firstNode = lastPtr l then
        ebind (get_next h secondNode) (\<lambda>sn.
        ebind (set_next h firstNode sn) (\<lambda>h1.
        ebind (get_next h1 secondNode) (\<lambda>sn1.
        ebind (set_prev h1 sn1 firstNode) (\<lambda>h2.
        ebind (set_next h2 secondNode None) (\<lambda>h3.
        Inr (h3, l\<lparr>lastPtr := secondNode\<rparr>))))))
      else if secondNode = lastPtr l then
        ebind (get_next h firstNode) (\<lambda>fn.
        ebind (set_next h secondNode fn) (\<lambda>h1.
        ebind (get_next h1 firstNode) (\<lambda>fn1.
        ebind (set_prev h1 fn1 secondNode) (\<lambda>h2.
        ebind (set_next h2 firstNode None) (\<lambda>h3.
        Inr (h3, l\<lparr>lastPtr := firstNode\<rparr>))))))
      else
        ebind (get_next h firstNode) (\<lambda>fn.
        ebind (set_prev h fn secondNode) (\<lambda>h1.
        ebind (get_next h1 secondNode) (\<lambda>sn.
        ebind (set_prev h1 sn firstNode) (\<lambda>h2.
        ebind (get_next h2 firstNode) (\<lambda>tempPtr.
        ebind (get_next h2 secondNode) (\<lambda>sn2.
        ebind (set_next h2 firstNode sn2) (\<lambda>h3.
        ebind (set_next h3 secondNode tempPtr) (\<lambda>h4.
        Inr (h4, l))))))))))"

definition SwapNonSuccessiveNodes ::
    "'a heap \<Rightarrow> List \<Rightarrow> addr option \<Rightarrow> addr option \<Rightarrow> error + ('a heap \<times> List)" where
  "SwapNonSuccessiveNodes h l firstNode secondNode =
     (if firstNode = None \<or> secondNode = None
        then Inl (logic_error ''Cannot swap undefined nodes!'')
      else if firstNode = secondNode then Inl (logic_error ''Nodes must be different!'')
      else
        ebind (get_next h firstNode) (\<lambda>fn.
        if fn = secondNode then SwapSuccessiveNodes h l firstNode secondNode
        else
          ebind (get_prev h firstNode) (\<lambda>fp.
          if fp = secondNode then SwapSuccessiveNodes h l secondNode firstNode
          else
            ebind (update_previous_pointers h l firstNode secondNode) (\<lambda>(h1, l1).
            update_next_pointers h1 l1 firstNode secondNode))))"

definition SwapNodes ::
    "'a heap \<Rightarrow> List \<Rightarrow> addr option \<Rightarrow> addr option \<Rightarrow> error + ('a heap \<times> List)" where
  "SwapNodes h l firstNode secondNode =
     (if firstNode = None \<or> secondNode = None
        then Inl (logic_error ''Cannot swap undefined nodes!'')
      else if firstNode = secondNode then Inr (h, l)
      else
        ebind (get_next h firstNode) (\<lambda>fn.
        if fn = secondNode then SwapSuccessiveNodes h l firstNode secondNode
        else
          ebind (get_prev h firstNode) (\<lambda>fp.
          if fp = secondNode then SwapSuccessiveNodes h l secondNode firstNode
          else SwapNonSuccessiveNodes h l firstNode secondNode)))"

partial_function (option) Sort_from ::
    "('a::linorder) heap \<Rightarrow> List \<Rightarrow> addr option \<Rightarrow> (error + ('a heap \<times> List)) option" where
  "Sort_from h l swapNode =
     (if swapNode \<noteq> None then
        obind (FindMinimum h l swapNode) (\<lambda>minNode.
        lift (SwapNodes h l minNode swapNode) (\<lambda>(h1, l1).
        lift (get_next h1 minNode) (\<lambda>n.
        Sort_from h1 l1 n)))
      else Some (Inr (h, l)))"

declare Sort_from.simps [code]

definition Sort :: "('a::linorder) heap \<Rightarrow> List \<Rightarrow> (error + ('a heap \<times> List)) option" where
  "Sort h l =
     (if isEmpty l \<or> firstPtr l = lastPtr l then Some (Inr (h, l))
      else Sort_from h l (firstPtr l))"

subsection \<open>Merging and concatenating\<close>

text \<open>
  The operations on two lists take and return both headers; the two are different
  objects.
\<close>

text \<open>\<open>Prepend(ListNode<T>* baseNode, ListNode<T>* newNode)\<close>\<close>

definition Prepend_node ::
    "'a heap \<Rightarrow> List \<Rightarrow> addr option \<Rightarrow> addr option \<Rightarrow> error + ('a heap \<times> List)" where
  "Prepend_node h l baseNode newNode =
     (if baseNode = None \<or> newNode = None
        then Inl (logic_error ''Base node cannot be NULL while appending!'')
      else
        ebind (if baseNode = firstPtr l then Inr (h, l\<lparr>firstPtr := newNode\<rparr>)
               else ebind (get_prev h baseNode) (\<lambda>p.
                    ebind (set_next h p newNode) (\<lambda>h1. Inr (h1, l)))) (\<lambda>(h1, l1).
        ebind (set_next h1 newNode baseNode) (\<lambda>h2.
        ebind (get_prev h2 baseNode) (\<lambda>p.
        ebind (set_prev h2 newNode p) (\<lambda>h3.
        ebind (set_prev h3 baseNode newNode) (\<lambda>h4.
        Inr (h4, l1\<lparr>numberOfNodes := numberOfNodes l1 + 1\<rparr>)))))))"

definition Concatenate :: "'a heap \<Rightarrow> List \<Rightarrow> List \<Rightarrow> error + ('a heap \<times> List \<times> List)" where
  "Concatenate h this anotherList =
     (if isEmpty anotherList then Inr (h, this, anotherList)
      else
        let this1 = (if isEmpty this then this\<lparr>firstPtr := firstPtr anotherList\<rparr> else this) in
        ebind (set_prev h (firstPtr anotherList) (lastPtr this1)) (\<lambda>h1.
        ebind (set_next h1 (lastPtr this1) (firstPtr anotherList)) (\<lambda>h2.
        Inr (h2,
             this1\<lparr>lastPtr := lastPtr anotherList,
                   numberOfNodes := numberOfNodes this1 + GetNodeCount anotherList\<rparr>,
             anotherList\<lparr>firstPtr := None, lastPtr := None, numberOfNodes := 0\<rparr>))))"

partial_function (option) Merge_from ::
    "('a::linorder) heap \<Rightarrow> List \<Rightarrow> List \<Rightarrow> addr option \<Rightarrow> (error + ('a heap \<times> List \<times> List)) option" where
  "Merge_from h this anotherList currentNodeL1 =
     (if currentNodeL1 \<noteq> None then
        lift (get_data h currentNodeL1) (\<lambda>d1.
        lift (get_data h (firstPtr anotherList)) (\<lambda>d2.
        if d1 > d2 then
          lift (DetachNode h anotherList (firstPtr anotherList)) (\<lambda>(h1, another1).
          lift (Prepend_node h1 this currentNodeL1 (firstPtr anotherList)) (\<lambda>(h2, this1).
          Merge_from h2 this1 another1 currentNodeL1))
        else
          lift (get_next h currentNodeL1) (\<lambda>n.
          Merge_from h this anotherList n)))
      else Some (Inr (h, this, anotherList)))"

declare Merge_from.simps [code]

definition Merge ::
    "('a::linorder) heap \<Rightarrow> List \<Rightarrow> List \<Rightarrow> (error + ('a heap \<times> List \<times> List)) option" where
  "Merge h this anotherList =
     obind (isSorted h this) (\<lambda>s1.
     obind (if s1 = False then Sort h this else Some (Inr (h, this))) (\<lambda>(h1, this1).
     obind (isSorted h1 anotherList) (\<lambda>s2.
     obind (if s2 = False then Sort h1 anotherList else Some (Inr (h1, anotherList))) (\<lambda>(h2, another1).
     obind (Merge_from h2 this1 another1 (firstPtr this1)) (\<lambda>(h3, this2, another2).
     if isEmpty another2 = False then Some (Concatenate h3 this2 another2)
     else Some (Inr (h3, this2, another2)))))))"

subsection \<open>Iterators\<close>

record iterator =
  node :: "addr option"

text \<open>\<open>iterator(ListNode<T>* node)\<close>\<close>

definition iterator_of :: "addr option \<Rightarrow> error + iterator" where
  "iterator_of p =
     (if p = None then Inl (logic_error ''Iterator construction failed!'')
      else Inr \<lparr>node = p\<rparr>)"

text \<open>\<open>operator++\<close> and \<open>operator--\<close>; the prefix and the postfix forms have the same body.\<close>

definition increment :: "'a heap \<Rightarrow> iterator \<Rightarrow> error + iterator" where
  "increment h it =
     ebind (get_next h (node it)) (\<lambda>n. if n \<noteq> None then Inr (it\<lparr>node := n\<rparr>) else Inr it)"

definition decrement :: "'a heap \<Rightarrow> iterator \<Rightarrow> error + iterator" where
  "decrement h it =
     ebind (get_prev h (node it)) (\<lambda>p. if p \<noteq> None then Inr (it\<lparr>node := p\<rparr>) else Inr it)"

definition begin_it :: "List \<Rightarrow> error + iterator" where
  "begin_it l =
     (if isEmpty l then Inl (logic_error ''Cannot iterate in an empty list!'')
      else iterator_of (firstPtr l))"

definition end_it :: "List \<Rightarrow> error + iterator" where
  "end_it l =
     (if isEmpty l then Inl (logic_error ''Cannot iterate in an empty list!'')
      else iterator_of (lastPtr l))"


section \<open>ArrayContainer.h\<close>

text \<open>
  An \<open>Array<T>\<close> is the pair of its fields: \<open>size\<close> (here \<open>arr_size\<close>, since \<open>size\<close> is
  taken in HOL) and \<open>container\<close>, the pointer to the buffer. The buffers live in a store of
  their own.
\<close>

record Array =
  arr_size :: nat
  container :: "addr option"

type_synonym 'a buffers = "addr \<rightharpoonup> 'a list"

definition getSize :: "Array \<Rightarrow> nat" where
  "getSize a = (if container a = None then 0 else arr_size a)"

text \<open>
  \<open>new T[n]\<close>: the allocator hands out the address \<open>p\<close>, which must not be in use, and the
  fresh buffer holds \<open>cs\<close>, whatever default construction leaves there.
\<close>

definition new_array :: "'a buffers \<Rightarrow> addr \<Rightarrow> 'a list \<Rightarrow> nat \<Rightarrow> error + 'a buffers" where
  "new_array bs p cs n =
     (if bs p \<noteq> None \<or> length cs \<noteq> n then Inl bad_alloc else Inr (bs(p \<mapsto> cs)))"

text \<open>\<open>Array(const size_t arraySize)\<close>\<close>

definition Array_by_size :: "'a buffers \<Rightarrow> addr \<Rightarrow> 'a list \<Rightarrow> nat \<Rightarrow> error + ('a buffers \<times> Array)" where
  "Array_by_size bs p cs arraySize =
     (if arraySize = 0 then Inl (logic_error ''Array size cannot be zero!'')
      else ebind (new_array bs p cs arraySize)
             (\<lambda>bs'. Inr (bs', \<lparr>arr_size = arraySize, container = Some p\<rparr>)))"

text \<open>
  \<open>Array(std::initializer_list<T>)\<close>: the buffer is allocated and then filled element by
  element through the raw pointer, so it ends up holding the initializer list.
\<close>

definition Array_by_list :: "'a buffers \<Rightarrow> addr \<Rightarrow> 'a list \<Rightarrow> 'a list \<Rightarrow> error + ('a buffers \<times> Array)" where
  "Array_by_list bs p cs initializerList =
     (if length initializerList = 0 then Inl (logic_error ''Array size cannot be zero!'')
      else ebind (new_array bs p cs (length initializerList))
             (\<lambda>bs'. Inr (bs'(p \<mapsto> initializerList),
                          \<lparr>arr_size = length initializerList, container = Some p\<rparr>)))"

text \<open>
  \<open>Array(Array<T>&& moveArr)\<close>: returns the new array and the source as the constructor
  leaves it. The source keeps its \<open>size\<close> field (it is \<open>const\<close>); only its pointer is
  cleared.
\<close>

definition Array_move :: "Array \<Rightarrow> error + (Array \<times> Array)" where
  "Array_move moveArr =
     (if getSize moveArr = 0 then Inl (logic_error ''Array size cannot be zero!'')
      else Inr (\<lparr>arr_size = getSize moveArr, container = container moveArr\<rparr>,
                moveArr\<lparr>container := None\<rparr>))"

text \<open>\<open>container[index]\<close>, the raw read behind both subscript operators.\<close>

definition raw_read :: "'a buffers \<Rightarrow> addr option \<Rightarrow> nat \<Rightarrow> error + 'a" where
  "raw_read bs c index =
     (case c of
        None \<Rightarrow> Inl NullPointer
      | Some p \<Rightarrow>
          (case bs p of
             None \<Rightarrow> Inl DanglingPointer
           | Some xs \<Rightarrow> if index < length xs then Inr (xs ! index) else Inl BufferOverrun))"

text \<open>
  \<open>operator[]\<close>: the const and the mutable overload have the same body; the model returns
  the element the reference denotes.
\<close>

definition subscript :: "'a buffers \<Rightarrow> Array \<Rightarrow> nat \<Rightarrow> error + 'a" where
  "subscript bs a index =
     (if index < arr_size a then raw_read bs (container a) index
      else if container a = None
        then Inl (logic_error ''Container deleted or has not been allocated properly!'')
      else Inl (range_error (arr_size a) index))"




text \<open>
  An array with a live buffer: the pointer is not null and the buffer it points to has
  \<open>size\<close> elements, \<open>xs\<close>. Every constructor establishes this; the move constructor breaks
  it for its source.
\<close>

definition live_array :: "'a buffers \<Rightarrow> Array \<Rightarrow> 'a list \<Rightarrow> bool" where
  "live_array bs a xs =
     (case container a of
        None \<Rightarrow> False
      | Some p \<Rightarrow> bs p = Some xs \<and> length xs = arr_size a)"


subsection \<open>Facts about the array\<close>

lemma ebind_Inr [simp]: "ebind (Inr v) f = f v"
  by (simp add: ebind_def)

lemma ebind_Inl [simp]: "ebind (Inl e) f = Inl e"
  by (simp add: ebind_def)

lemma subscript_live:
  assumes "live_array bs a xs"
  shows "index < arr_size a \<Longrightarrow> subscript bs a index = Inr (xs ! index)"
    and "arr_size a \<le> index \<Longrightarrow> subscript bs a index = Inl (range_error (arr_size a) index)"
  using assms
  by (auto simp: live_array_def subscript_def raw_read_def split: option.splits)


text \<open>
  C7. Constructing an array of size 0 fails with the \<open>logic_error\<close> "Array size cannot be
  zero!" (InvalidSize). For an array whose buffer is live and holds the \<open>n\<close> elements
  \<open>xs\<close>, the subscript at an index \<open>\<ge> n\<close> fails with the \<open>range_error\<close> that carries the
  size and the index (OutOfRange), and at an index \<open>< n\<close> it returns the stored element.
  For an array whose pointer is null (a moved-from array) the subscript at an index
  \<open>\<ge> size\<close> fails with the \<open>logic_error\<close> "Container deleted ..." (InvalidState) instead.
\<close>

theorem C7_array_subscript:
  "Array_by_size bs p cs 0 = Inl (logic_error ''Array size cannot be zero!'')
   \<and> (live_array bs a xs \<longrightarrow>
        (\<forall>index. (arr_size a \<le> index \<longrightarrow> subscript bs a index = Inl (range_error (arr_size a) index))
               \<and> (index < arr_size a \<longrightarrow> subscript bs a index = Inr (xs ! index))))
   \<and> (container a = None \<longrightarrow>
        (\<forall>index. arr_size a \<le> index \<longrightarrow>
           subscript bs a index
             = Inl (logic_error ''Container deleted or has not been allocated properly!'')))"
proof (intro conjI impI allI)
  show "Array_by_size bs p cs 0 = Inl (logic_error ''Array size cannot be zero!'')"
    by (simp add: Array_by_size_def)
next
  fix index
  assume "live_array bs a xs" and "arr_size a \<le> index"
  then show "subscript bs a index = Inl (range_error (arr_size a) index)"
    by (rule subscript_live(2))
next
  fix index
  assume "live_array bs a xs" and "index < arr_size a"
  then show "subscript bs a index = Inr (xs ! index)"
    by (rule subscript_live(1))
next
  fix index
  assume "container a = None" and "arr_size a \<le> index"
  then show "subscript bs a index
               = Inl (logic_error ''Container deleted or has not been allocated properly!'')"
    by (simp add: subscript_def)
qed

text \<open>
  The theorem at the array \<open>{10, 20}\<close> built by the initializer-list constructor, and at
  what the move constructor leaves of it.
\<close>

theorem C7_array_subscript_witness:
  "Array_by_list Map.empty 0 [0, 0] [10, 20 :: int]
     = Inr ([0 \<mapsto> [10, 20]], \<lparr>arr_size = 2, container = Some 0\<rparr>)
   \<and> live_array [0 \<mapsto> [10, 20 :: int]] \<lparr>arr_size = 2, container = Some 0\<rparr> [10, 20]
   \<and> subscript [0 \<mapsto> [10, 20 :: int]] \<lparr>arr_size = 2, container = Some 0\<rparr> 2
       = Inl (range_error 2 2)
   \<and> subscript [0 \<mapsto> [10, 20 :: int]] \<lparr>arr_size = 2, container = Some 0\<rparr> 1 = Inr 20
   \<and> subscript [0 \<mapsto> [10, 20 :: int]] \<lparr>arr_size = 2, container = None\<rparr> 2
       = Inl (logic_error ''Container deleted or has not been allocated properly!'')"
proof -
  let ?bs = "[0 \<mapsto> [10, 20 :: int]]"
  let ?a = "\<lparr>arr_size = 2, container = Some 0\<rparr>"
  let ?m = "\<lparr>arr_size = 2, container = None\<rparr>"
  have live: "live_array ?bs ?a [10, 20]"
    by (simp add: live_array_def)
  have built: "Array_by_list Map.empty 0 [0, 0] [10, 20 :: int] = Inr (?bs, ?a)"
    by (simp add: Array_by_list_def new_array_def)
  from C7_array_subscript [where bs = ?bs and a = ?a and xs = "[10, 20]"] live
  have "subscript ?bs ?a 2 = Inl (range_error 2 2)" and "subscript ?bs ?a 1 = Inr 20"
    by auto
  moreover from C7_array_subscript [where bs = ?bs and a = ?m]
  have "subscript ?bs ?m 2
          = Inl (logic_error ''Container deleted or has not been allocated properly!'')"
    by auto
  ultimately show ?thesis
    using live built by simp
qed

text \<open>
  Against C7 as stated: \<open>{10, 20}\<close> is built, then moved from. Its \<open>size\<close> is still 2 and
  \<open>getSize()\<close> is 0, and the subscript at index 5 (beyond both) fails with the
  \<open>logic_error\<close>, not with the \<open>range_error\<close>.
\<close>

theorem C7_moved_from_counterexample:
  "Array_by_list Map.empty 0 [0, 0] [10, 20 :: int]
     = Inr ([0 \<mapsto> [10, 20]], \<lparr>arr_size = 2, container = Some 0\<rparr>)
   \<and> Array_move \<lparr>arr_size = 2, container = Some 0\<rparr>
     = Inr (\<lparr>arr_size = 2, container = Some 0\<rparr>, \<lparr>arr_size = 2, container = None\<rparr>)
   \<and> getSize \<lparr>arr_size = 2, container = None\<rparr> = 0
   \<and> subscript [0 \<mapsto> [10, 20 :: int]] \<lparr>arr_size = 2, container = None\<rparr> 5
     = Inl (logic_error ''Container deleted or has not been allocated properly!'')
   \<and> subscript [0 \<mapsto> [10, 20 :: int]] \<lparr>arr_size = 2, container = None\<rparr> 5
     \<noteq> Inl (range_error 2 5)"
  by (simp add: Array_by_list_def new_array_def Array_move_def getSize_def subscript_def)






section \<open>Lists in the heap\<close>

text \<open>
  What it means for a header and a heap to be a list. \<open>dlseg h p as q\<close>: the nodes at the
  addresses \<open>as\<close> are live and linked in this order in both directions, the first one
  pointing back to \<open>p\<close> and the last one pointing on to \<open>q\<close>. \<open>is_list h l as\<close>: the header
  \<open>l\<close> owns the chain \<open>as\<close>, which starts and ends with null, and this is the data-model
  invariant of the specification: the head is the first node (null when there is none),
  the tail is the last, the count is the number of nodes. \<open>holds h as xs\<close>: the nodes
  \<open>as\<close> carry the values \<open>xs\<close>.
\<close>

fun first_or :: "addr list \<Rightarrow> addr option \<Rightarrow> addr option" where
  "first_or [] q = q"
| "first_or (a # as) q = Some a"

fun last_or :: "addr list \<Rightarrow> addr option \<Rightarrow> addr option" where
  "last_or [] p = p"
| "last_or (a # as) p = last_or as (Some a)"

fun dlseg :: "'a heap \<Rightarrow> addr option \<Rightarrow> addr list \<Rightarrow> addr option \<Rightarrow> bool" where
  "dlseg h p [] q = True"
| "dlseg h p (a # as) q =
     (case h a of
        None \<Rightarrow> False
      | Some n \<Rightarrow> prevPtr n = p \<and> nextPtr n = first_or as q \<and> dlseg h (Some a) as q)"

definition is_list :: "'a heap \<Rightarrow> List \<Rightarrow> addr list \<Rightarrow> bool" where
  "is_list h l as =
     (distinct as \<and> dlseg h None as None
      \<and> firstPtr l = first_or as None
      \<and> lastPtr l = last_or as None
      \<and> numberOfNodes l = length as)"

definition holds :: "'a heap \<Rightarrow> addr list \<Rightarrow> 'a list \<Rightarrow> bool" where
  "holds h as xs = (map (\<lambda>a. map_option data (h a)) as = map Some xs)"

text \<open>The lists of the examples: \<open>{7}\<close>, \<open>{1, 3, 5}\<close> and \<open>{2, 4}\<close>, as the constructor builds them.\<close>

definition heap_7 :: "int heap" where
  "heap_7 = [10 \<mapsto> \<lparr>data = 7, prevPtr = None, nextPtr = None\<rparr>]"

definition list_7 :: List where
  "list_7 = \<lparr>firstPtr = Some 10, lastPtr = Some 10, numberOfNodes = 1\<rparr>"

definition heap_135 :: "int heap" where
  "heap_135 =
     [10 \<mapsto> \<lparr>data = 1, prevPtr = None, nextPtr = Some 11\<rparr>,
      11 \<mapsto> \<lparr>data = 3, prevPtr = Some 10, nextPtr = Some 12\<rparr>,
      12 \<mapsto> \<lparr>data = 5, prevPtr = Some 11, nextPtr = None\<rparr>]"

definition list_135 :: List where
  "list_135 = \<lparr>firstPtr = Some 10, lastPtr = Some 12, numberOfNodes = 3\<rparr>"

definition heap_135_24 :: "int heap" where
  "heap_135_24 =
     [10 \<mapsto> \<lparr>data = 1, prevPtr = None, nextPtr = Some 11\<rparr>,
      11 \<mapsto> \<lparr>data = 3, prevPtr = Some 10, nextPtr = Some 12\<rparr>,
      12 \<mapsto> \<lparr>data = 5, prevPtr = Some 11, nextPtr = None\<rparr>,
      13 \<mapsto> \<lparr>data = 2, prevPtr = None, nextPtr = Some 14\<rparr>,
      14 \<mapsto> \<lparr>data = 4, prevPtr = Some 13, nextPtr = None\<rparr>]"

definition list_24 :: List where
  "list_24 = \<lparr>firstPtr = Some 13, lastPtr = Some 14, numberOfNodes = 2\<rparr>"


subsection \<open>Running the model\<close>

lemma ebind_weak_cong: "m = m' \<Longrightarrow> ebind m f = ebind m' f"
  by simp

lemma lift_weak_cong: "m = m' \<Longrightarrow> lift m f = lift m' f"
  by simp

lemma obind_weak_cong: "m = m' \<Longrightarrow> obind m f = obind m' f"
  by simp

lemma lift_Inr [simp]: "lift (Inr v) f = f v"
  by (simp add: lift_def)

lemma lift_Inl [simp]: "lift (Inl e) f = Some (Inl e)"
  by (simp add: lift_def)

lemma obind_Inr [simp]: "obind (Some (Inr v)) f = f v"
  by (simp add: obind_def)

lemma obind_Inl [simp]: "obind (Some (Inl e)) f = Some (Inl e)"
  by (simp add: obind_def)

lemma obind_None [simp]: "obind None f = None"
  by (simp add: obind_def)

lemmas prims = deref_def get_data_def get_prev_def get_next_def set_prev_def set_next_def
  new_node_def delete_node_def size_t_dec_def isEmpty_def GetNodeCount_def List_default_def

lemmas examples = heap_7_def list_7_def heap_135_def list_135_def heap_135_24_def list_24_def

lemma built_7: "List_by_list Map.empty [(10, 7)] = Inr (heap_7, list_7)"
  by (simp add: List_by_list_def Append_def prims examples cong: ebind_weak_cong)

lemma built_135: "List_by_list Map.empty [(10, 1), (11, 3), (12, 5)] = Inr (heap_135, list_135)"
  by (simp add: List_by_list_def Append_def prims examples fun_upd_twist cong: ebind_weak_cong)

lemma built_24: "List_by_list heap_135 [(13, 2), (14, 4)] = Inr (heap_135_24, list_24)"
  by (simp add: List_by_list_def Append_def prims examples fun_upd_twist cong: ebind_weak_cong)

lemma is_list_7: "is_list heap_7 list_7 [10]" "holds heap_7 [10] [7]"
  by (simp_all add: is_list_def holds_def examples)

lemma is_list_135: "is_list heap_135 list_135 [10, 11, 12]" "holds heap_135 [10, 11, 12] [1, 3, 5]"
  by (simp_all add: is_list_def holds_def examples)

lemma is_list_135_24:
  "is_list heap_135_24 list_135 [10, 11, 12]" "holds heap_135_24 [10, 11, 12] [1, 3, 5]"
  "is_list heap_135_24 list_24 [13, 14]" "holds heap_135_24 [13, 14] [2, 4]"
  by (simp_all add: is_list_def holds_def examples)


subsection \<open>Where the code breaks a claim\<close>

text \<open>
  C1. The list \<open>{7}\<close> is built by the initializer-list constructor. \<open>RemoveFirst\<close> leaves the
  count 0 and the head null, but the tail still holds the address of the node it has
  just deleted; \<open>RemoveLast\<close> leaves the head so. \<open>DetachNode\<close>, the other way this class
  takes a node out, resets both pointers on the same list.
\<close>

theorem C1_remove_only_element:
  "List_by_list Map.empty [(10, 7)] = Inr (heap_7, list_7)
   \<and> RemoveFirst heap_7 list_7
       = Inr (Map.empty, \<lparr>firstPtr = None, lastPtr = Some 10, numberOfNodes = 0\<rparr>)
   \<and> RemoveLast heap_7 list_7
       = Inr (Map.empty, \<lparr>firstPtr = Some 10, lastPtr = None, numberOfNodes = 0\<rparr>)
   \<and> DetachNode heap_7 list_7 (Some 10)
       = Inr (heap_7, \<lparr>firstPtr = None, lastPtr = None, numberOfNodes = 0\<rparr>)"
  using built_7
  by (simp add: RemoveFirst_def RemoveLast_def DetachNode_def prims examples
        cong: ebind_weak_cong)

text \<open>
  C2. \<open>{1, 3, 5}\<close> and \<open>{2, 4}\<close> are built by the constructor, both are sorted, and \<open>Merge\<close>
  stops on a null pointer: once it has moved 4 in front of 5 the other list is empty,
  the loop is still at 5, and it reads the data of the other list's head.
\<close>

theorem C2_merge_135_24:
  "List_by_list Map.empty [(10, 1), (11, 3), (12, 5)] = Inr (heap_135, list_135)
   \<and> List_by_list heap_135 [(13, 2), (14, 4)] = Inr (heap_135_24, list_24)
   \<and> isSorted heap_135_24 list_135 = Some (Inr True)
   \<and> isSorted heap_135_24 list_24 = Some (Inr True)
   \<and> Merge heap_135_24 list_135 list_24 = Some (Inl NullPointer)"
  using built_135 built_24
  by (simp add: Merge_def isSorted_def node_isSorted.simps Merge_from.simps DetachNode_def
        Prepend_node_def prims examples
        cong: ebind_weak_cong lift_weak_cong obind_weak_cong)

text \<open>
  C3. Concatenating \<open>{7}\<close> to the empty list \<open>List()\<close> stops on a null pointer: the code sets
  the head for the empty case and then writes through the tail all the same.
\<close>

theorem C3_concatenate_to_empty:
  "List_by_list Map.empty [(10, 7)] = Inr (heap_7, list_7)
   \<and> is_list heap_7 List_default []
   \<and> Concatenate heap_7 List_default list_7 = Inl NullPointer"
  using built_7
  by (simp add: Concatenate_def is_list_def prims examples cong: ebind_weak_cong)

text \<open>
  C9. \<open>{7}\<close> after \<open>RemoveLast\<close> is empty and so is \<open>List()\<close>, and the two are not equal:
  the head of the first still holds the address of the deleted node. A moved-from list
  does equal \<open>List()\<close>.
\<close>

theorem C9_empty_lists_unequal:
  "RemoveLast heap_7 list_7
     = Inr (Map.empty, \<lparr>firstPtr = Some 10, lastPtr = None, numberOfNodes = 0\<rparr>)
   \<and> isEmpty \<lparr>firstPtr = Some 10, lastPtr = None, numberOfNodes = 0\<rparr>
   \<and> isEmpty List_default
   \<and> list_equal \<lparr>firstPtr = Some 10, lastPtr = None, numberOfNodes = 0\<rparr> List_default = False
   \<and> list_equal (snd (List_move list_7)) List_default = True"
  by (simp add: RemoveLast_def list_equal_def List_move_def prims examples
        cong: ebind_weak_cong)


subsection \<open>Walking a list\<close>

lemma first_or_append [simp]: "first_or (xs @ ys) q = first_or xs (first_or ys q)"
  by (cases xs) simp_all

lemma last_or_append [simp]: "last_or (xs @ ys) p = last_or ys (last_or xs p)"
  by (induction xs arbitrary: p) simp_all

lemma first_or_nth: "first_or as q = (if as = [] then q else Some (as ! 0))"
  by (cases as) simp_all

lemma last_or_last: "last_or as p = (if as = [] then p else Some (last as))"
  by (induction as arbitrary: p) simp_all

lemma dlseg_nth:
  "dlseg h p as q \<Longrightarrow> i < length as \<Longrightarrow>
     \<exists>n. h (as ! i) = Some n
       \<and> prevPtr n = (if i = 0 then p else Some (as ! (i - 1)))
       \<and> nextPtr n = (if Suc i < length as then Some (as ! Suc i) else q)"
proof (induction as arbitrary: p i)
  case Nil
  then show ?case by simp
next
  case (Cons a as)
  show ?case
  proof (cases i)
    case 0
    with Cons.prems show ?thesis
      by (auto simp: first_or_nth split: option.splits)
  next
    case (Suc k)
    with Cons.prems have "dlseg h (Some a) as q" and "k < length as"
      by (auto split: option.splits)
    from Cons.IH [OF this] Suc show ?thesis
      by (cases k) auto
  qed
qed



lemma holds_length: "holds h as xs \<Longrightarrow> length xs = length as"
  by (metis holds_def length_map)

lemma holds_nth:
  "holds h as xs \<Longrightarrow> i < length as \<Longrightarrow> map_option data (h (as ! i)) = Some (xs ! i)"
  by (metis holds_def holds_length nth_map)

lemma holds_Nil [simp]: "holds h [] xs = (xs = [])"
  by (auto simp: holds_def)

lemma holds_Cons [simp]:
  "holds h (a # as) xs = (\<exists>n ys. h a = Some n \<and> xs = data n # ys \<and> holds h as ys)"
  by (cases xs) (auto simp: holds_def)

lemma deref_live [simp]: "h a = Some n \<Longrightarrow> deref h (Some a) = Inr n"
  by (simp add: deref_def)

lemma get_live [simp]:
  assumes "h a = Some n"
  shows "get_data h (Some a) = Inr (data n)"
    and "get_prev h (Some a) = Inr (prevPtr n)"
    and "get_next h (Some a) = Inr (nextPtr n)"
  using assms by (simp_all add: get_data_def get_prev_def get_next_def)

lemma set_live [simp]:
  assumes "h a = Some n"
  shows "set_prev h (Some a) v = Inr (h(a \<mapsto> n\<lparr>prevPtr := v\<rparr>))"
    and "set_next h (Some a) v = Inr (h(a \<mapsto> n\<lparr>nextPtr := v\<rparr>))"
  using assms by (simp_all add: set_prev_def set_next_def)

lemma delete_live [simp]: "h a = Some n \<Longrightarrow> delete_node h (Some a) = Inr (h(a := None))"
  by (simp add: delete_node_def)

lemma node_isSorted_dlseg:
  "dlseg h p (a # as) None \<Longrightarrow> holds h (a # as) xs \<Longrightarrow>
     node_isSorted h (Some a) = Some (Inr (sorted xs))"
proof (induction as arbitrary: p a xs)
  case Nil
  then show ?case
    by (subst node_isSorted.simps) (auto split: option.splits)
next
  case (Cons b bs)
  from Cons.prems obtain n m where
    a: "h a = Some n" "nextPtr n = Some b" and b: "h b = Some m"
    and seg: "dlseg h (Some a) (b # bs) None"
    by (auto split: option.splits)
  from Cons.prems a b obtain ys where
    xs: "xs = data n # data m # ys" and ho: "holds h (b # bs) (data m # ys)"
    by auto
  have rec: "node_isSorted h (Some b) = Some (Inr (sorted (data m # ys)))"
    using Cons.IH [OF seg ho] .
  show ?case
    using a b rec xs by (subst node_isSorted.simps) auto
qed

lemma isSorted_is_list:
  assumes "is_list h l as" and "holds h as xs" and "as \<noteq> []"
  shows "isSorted h l = Some (Inr (sorted xs))"
proof -
  from assms(3) obtain a bs where as: "as = a # bs"
    by (cases as) auto
  have "node_isSorted h (Some a) = Some (Inr (sorted xs))"
    using assms as node_isSorted_dlseg [of h None a bs xs] by (simp add: is_list_def)
  moreover have "firstPtr l = Some a" "\<not> isEmpty l"
    using assms as by (simp_all add: is_list_def isEmpty_def)
  ultimately show ?thesis
    by (simp add: isSorted_def)
qed

text \<open>
  C4. For a list that is not empty, \<open>isSorted()\<close> returns true exactly when every element
  is at most its successor (so it returns true for every list of one element). For an
  empty list it returns false.
\<close>

theorem C4_isSorted:
  "(is_list h l as \<and> holds h as xs \<and> as \<noteq> [] \<longrightarrow>
      isSorted h l = Some (Inr (\<forall>i. Suc i < length xs \<longrightarrow> xs ! i \<le> xs ! Suc i)))
   \<and> (isEmpty l \<longrightarrow> isSorted h l = Some (Inr False))"
proof (intro conjI impI)
  assume "isEmpty l"
  then show "isSorted h l = Some (Inr False)"
    by (simp add: isSorted_def)
next
  assume "is_list h l as \<and> holds h as xs \<and> as \<noteq> []"
  then have "isSorted h l = Some (Inr (sorted xs))"
    using isSorted_is_list [of h l as xs] by blast
  then show "isSorted h l = Some (Inr (\<forall>i. Suc i < length xs \<longrightarrow> xs ! i \<le> xs ! Suc i))"
    by (simp add: sorted_iff_nth_Suc)
qed

theorem C4_isSorted_witness:
  "is_list heap_135 list_135 [10, 11, 12] \<and> holds heap_135 [10, 11, 12] [1, 3, 5]
   \<and> isSorted heap_135 list_135 = Some (Inr True)
   \<and> is_list heap_7 list_7 [10] \<and> holds heap_7 [10] [7]
   \<and> isSorted heap_7 list_7 = Some (Inr True)
   \<and> isEmpty List_default
   \<and> isSorted heap_7 List_default = Some (Inr False)"
proof -
  have "isSorted heap_135 list_135
          = Some (Inr (\<forall>i. Suc i < length [1, 3, 5 :: int] \<longrightarrow> [1, 3, 5 :: int] ! i \<le> [1, 3, 5] ! Suc i))"
    using C4_isSorted [of heap_135 list_135 "[10, 11, 12]" "[1, 3, 5]"] is_list_135 by simp
  moreover have "\<forall>i. Suc i < length [1, 3, 5 :: int] \<longrightarrow> [1, 3, 5 :: int] ! i \<le> [1, 3, 5] ! Suc i"
    by (simp add: less_Suc_eq nth_Cons')
  moreover have "isSorted heap_7 list_7 = Some (Inr True)"
    using C4_isSorted [of heap_7 list_7 "[10]" "[7]"] is_list_7 by simp
  moreover have "isEmpty List_default" and "isSorted heap_7 List_default = Some (Inr False)"
    using C4_isSorted [of heap_7 List_default] by (simp_all add: prims)
  ultimately show ?thesis
    using is_list_135 is_list_7 by simp
qed

text \<open>
  Against C4 as stated: \<open>List()\<close> is an empty list, every element of it is at most its
  successor, and \<open>isSorted()\<close> returns false.
\<close>

theorem C4_empty_counterexample:
  "is_list (Map.empty :: int heap) List_default [] \<and> holds (Map.empty :: int heap) [] []
   \<and> isSorted (Map.empty :: int heap) List_default = Some (Inr False)
   \<and> isSorted (Map.empty :: int heap) List_default
       \<noteq> Some (Inr (\<forall>i. Suc i < length ([] :: int list) \<longrightarrow> ([] :: int list) ! i \<le> [] ! Suc i))"
  by (simp add: is_list_def isSorted_def prims)


subsection \<open>Iterators on a list\<close>

lemma step_is_list:
  assumes "is_list h l as" and "i < length as"
  shows "increment h \<lparr>node = Some (as ! i)\<rparr>
           = Inr \<lparr>node = Some (as ! (if Suc i < length as then Suc i else i))\<rparr>"
    and "decrement h \<lparr>node = Some (as ! i)\<rparr>
           = Inr \<lparr>node = Some (as ! (if 0 < i then i - 1 else i))\<rparr>"
proof -
  from assms obtain n where n: "h (as ! i) = Some n"
    "prevPtr n = (if i = 0 then None else Some (as ! (i - 1)))"
    "nextPtr n = (if Suc i < length as then Some (as ! Suc i) else None)"
    using dlseg_nth [of h None as None i] by (auto simp: is_list_def)
  show "increment h \<lparr>node = Some (as ! i)\<rparr>
           = Inr \<lparr>node = Some (as ! (if Suc i < length as then Suc i else i))\<rparr>"
    using n by (simp add: increment_def)
  show "decrement h \<lparr>node = Some (as ! i)\<rparr>
           = Inr \<lparr>node = Some (as ! (if 0 < i then i - 1 else i))\<rparr>"
    using n by (simp add: decrement_def)
qed

text \<open>
  C10. An iterator cannot be built from a null pointer. On a list, an iterator at the
  node of index \<open>i\<close> moves to the node of index \<open>i + 1\<close> when it is incremented and to
  the node of index \<open>i - 1\<close> when it is decremented, except that incrementing at the last
  node and decrementing at the first node leave it where it is. Either way it ends on a
  node of the chain.
\<close>

theorem C10_iterator:
  "iterator_of None = Inl (logic_error ''Iterator construction failed!'')
   \<and> iterator_of (Some a) = Inr \<lparr>node = Some a\<rparr>
   \<and> (is_list h l as \<and> i < length as \<longrightarrow>
        increment h \<lparr>node = Some (as ! i)\<rparr>
          = Inr \<lparr>node = Some (as ! (if Suc i < length as then Suc i else i))\<rparr>
        \<and> decrement h \<lparr>node = Some (as ! i)\<rparr>
          = Inr \<lparr>node = Some (as ! (if 0 < i then i - 1 else i))\<rparr>
        \<and> as ! (if Suc i < length as then Suc i else i) \<in> set as
        \<and> as ! (if 0 < i then i - 1 else i) \<in> set as)"
proof -
  have "i - 1 < length as" if "i < length as"
    using that by arith
  then show ?thesis
    using step_is_list [of h l as i] by (simp add: iterator_of_def)
qed

theorem C10_iterator_witness:
  "is_list heap_135 list_135 [10, 11, 12]
   \<and> begin_it list_135 = Inr \<lparr>node = Some 10\<rparr>
   \<and> end_it list_135 = Inr \<lparr>node = Some 12\<rparr>
   \<and> increment heap_135 \<lparr>node = Some 10\<rparr> = Inr \<lparr>node = Some 11\<rparr>
   \<and> increment heap_135 \<lparr>node = Some 12\<rparr> = Inr \<lparr>node = Some 12\<rparr>
   \<and> decrement heap_135 \<lparr>node = Some 12\<rparr> = Inr \<lparr>node = Some 11\<rparr>
   \<and> decrement heap_135 \<lparr>node = Some 10\<rparr> = Inr \<lparr>node = Some 10\<rparr>"
proof -
  have "begin_it list_135 = Inr \<lparr>node = Some 10\<rparr>" "end_it list_135 = Inr \<lparr>node = Some 12\<rparr>"
    using C10_iterator [of 10 heap_135 list_135 "[10, 11, 12]" 0]
      C10_iterator [of 12 heap_135 list_135 "[10, 11, 12]" 0]
    by (simp_all add: begin_it_def end_it_def isEmpty_def list_135_def)
  moreover have "increment heap_135 \<lparr>node = Some 10\<rparr> = Inr \<lparr>node = Some 11\<rparr>"
    "decrement heap_135 \<lparr>node = Some 10\<rparr> = Inr \<lparr>node = Some 10\<rparr>"
    using C10_iterator [of 10 heap_135 list_135 "[10, 11, 12]" 0] is_list_135(1) by simp_all
  moreover have "increment heap_135 \<lparr>node = Some 12\<rparr> = Inr \<lparr>node = Some 12\<rparr>"
    "decrement heap_135 \<lparr>node = Some 12\<rparr> = Inr \<lparr>node = Some 11\<rparr>"
    using C10_iterator [of 10 heap_135 list_135 "[10, 11, 12]" 2] is_list_135(1) by simp_all
  ultimately show ?thesis
    using is_list_135(1) by simp
qed


subsection \<open>Removing nodes\<close>

text \<open>
  What \<open>Unique\<close> is to compute, in the words of the specification: the elements at the
  positions where a value occurs for the first time, in their order.
\<close>

definition first_occurrences :: "'a list \<Rightarrow> 'a list" where
  "first_occurrences xs =
     map (\<lambda>i. xs ! i) (filter (\<lambda>i. xs ! i \<notin> set (take i xs)) [0..<length xs])"

text \<open>What the loop of \<open>Unique\<close> does to the chain, node by node.\<close>

fun uniq_by :: "('b \<Rightarrow> 'c) \<Rightarrow> 'b list \<Rightarrow> 'b list" where
  "uniq_by f [] = []"
| "uniq_by f (a # as) = a # uniq_by f (filter (\<lambda>b. f b \<noteq> f a) as)"





lemma first_occurrences_Nil [simp]: "first_occurrences [] = []"
  by (simp add: first_occurrences_def)





lemma uniq_by_subset: "set (uniq_by f as) \<subseteq> set as"
  by (induction f as rule: uniq_by.induct) auto










text \<open>
  \<open>data_at h a\<close> is the value of the node at \<open>a\<close>; \<open>keeps_data h h'\<close> says that every node
  of \<open>h'\<close> was a node of \<open>h\<close> with the same value (nodes may have been deleted and links
  rewritten).
\<close>

definition data_at :: "'a heap \<Rightarrow> addr \<Rightarrow> 'a option" where
  "data_at h a = map_option data (h a)"

definition keeps_data :: "'a heap \<Rightarrow> 'a heap \<Rightarrow> bool" where
  "keeps_data h h' = (\<forall>a. h' a = None \<or> data_at h' a = data_at h a)"

lemma keeps_data_refl [simp]: "keeps_data h h"
  by (simp add: keeps_data_def)


















lemma holds_data_at: "holds h as xs = (map (data_at h) as = map Some xs)"
  by (simp add: holds_def data_at_def [abs_def])


definition heap_31321 :: "int heap" where
  "heap_31321 =
     [10 \<mapsto> \<lparr>data = 3, prevPtr = None, nextPtr = Some 11\<rparr>,
      11 \<mapsto> \<lparr>data = 1, prevPtr = Some 10, nextPtr = Some 12\<rparr>,
      12 \<mapsto> \<lparr>data = 3, prevPtr = Some 11, nextPtr = Some 13\<rparr>,
      13 \<mapsto> \<lparr>data = 2, prevPtr = Some 12, nextPtr = Some 14\<rparr>,
      14 \<mapsto> \<lparr>data = 1, prevPtr = Some 13, nextPtr = None\<rparr>]"

definition list_31321 :: List where
  "list_31321 = \<lparr>firstPtr = Some 10, lastPtr = Some 14, numberOfNodes = 5\<rparr>"


lemma is_list_31321:
  "is_list heap_31321 list_31321 [10, 11, 12, 13, 14]"
  "holds heap_31321 [10, 11, 12, 13, 14] [3, 1, 3, 2, 1]"
  by (simp_all add: is_list_def holds_def heap_31321_def list_31321_def)



subsection \<open>Sorting\<close>

text \<open>
  A list seen by position: the pointers that the node at position \<open>k\<close> of a well-formed list
  holds, and the pointer to that node (null after the last one).
\<close>

definition prev_at :: "addr list \<Rightarrow> nat \<Rightarrow> addr option" where
  "prev_at as k = (if k = 0 then None else Some (as ! (k - 1)))"

definition next_at :: "addr list \<Rightarrow> nat \<Rightarrow> addr option" where
  "next_at as k = (if Suc k < length as then Some (as ! Suc k) else None)"

definition ptr_at :: "addr list \<Rightarrow> nat \<Rightarrow> addr option" where
  "ptr_at as k = (if k < length as then Some (as ! k) else None)"

definition linked_at :: "'a heap \<Rightarrow> addr list \<Rightarrow> nat \<Rightarrow> bool" where
  "linked_at h as k =
     (\<exists>n. h (as ! k) = Some n \<and> prevPtr n = prev_at as k \<and> nextPtr n = next_at as k)"

lemma dlseg_of_nth:
  "(\<And>k. k < length as \<Longrightarrow>
      \<exists>n. h (as ! k) = Some n
        \<and> prevPtr n = (if k = 0 then p else Some (as ! (k - 1)))
        \<and> nextPtr n = (if Suc k < length as then Some (as ! Suc k) else q))
   \<Longrightarrow> dlseg h p as q"
proof (induction as arbitrary: p)
  case Nil
  then show ?case by simp
next
  case (Cons a as)
  have "dlseg h (Some a) as q"
  proof (rule Cons.IH)
    fix k assume "k < length as"
    then show "\<exists>n. h (as ! k) = Some n
        \<and> prevPtr n = (if k = 0 then Some a else Some (as ! (k - 1)))
        \<and> nextPtr n = (if Suc k < length as then Some (as ! Suc k) else q)"
      using Cons.prems [of "Suc k"] by (cases k) auto
  qed
  then show ?case
    using Cons.prems [of 0] by (auto simp: first_or_nth)
qed

lemma is_list_iff_linked:
  "is_list h l as \<longleftrightarrow>
     distinct as \<and> numberOfNodes l = length as
     \<and> firstPtr l = ptr_at as 0 \<and> lastPtr l = (if as = [] then None else Some (as ! (length as - 1)))
     \<and> (\<forall>k<length as. linked_at h as k)"
proof -
  have "dlseg h None as None \<longleftrightarrow> (\<forall>k<length as. linked_at h as k)"
  proof
    assume "dlseg h None as None"
    then show "\<forall>k<length as. linked_at h as k"
      using dlseg_nth [of h None as None] by (simp add: linked_at_def prev_at_def next_at_def)
  next
    assume "\<forall>k<length as. linked_at h as k"
    then show "dlseg h None as None"
      by (intro dlseg_of_nth) (simp add: linked_at_def prev_at_def next_at_def)
  qed
  then show ?thesis
    by (auto simp: is_list_def first_or_nth last_or_last ptr_at_def last_conv_nth)
qed


text \<open>The node at \<open>a\<close> is allocated, with \<open>prevPtr = p\<close> and \<open>nextPtr = q\<close>.\<close>

definition node_ok :: "'a heap \<Rightarrow> addr \<Rightarrow> addr option \<Rightarrow> addr option \<Rightarrow> bool" where
  "node_ok h a p q = (\<exists>n. h a = Some n \<and> prevPtr n = p \<and> nextPtr n = q)"

lemma linked_at_node_ok: "linked_at h as k = node_ok h (as ! k) (prev_at as k) (next_at as k)"
  by (simp add: linked_at_def node_ok_def)

lemma is_list_node:
  assumes "is_list h l as" and "k < length as"
  shows "\<exists>d. h (as ! k) = Some \<lparr>data = d, prevPtr = prev_at as k, nextPtr = next_at as k\<rparr>"
proof -
  from assms obtain n where "h (as ! k) = Some n" "prevPtr n = prev_at as k" "nextPtr n = next_at as k"
    by (auto simp: is_list_iff_linked linked_at_def)
  then have "h (as ! k) = Some \<lparr>data = data n, prevPtr = prev_at as k, nextPtr = next_at as k\<rparr>"
    by simp
  then show ?thesis ..
qed

lemma is_list_node_prev:
  assumes "is_list h l as" and "k < length as" and "0 < k"
  shows "\<exists>d. h (as ! (k - 1)) = Some \<lparr>data = d, prevPtr = prev_at as (k - 1), nextPtr = Some (as ! k)\<rparr>"
proof -
  have "k - 1 < length as" "Suc (k - 1) = k"
    using assms(2,3) by arith+
  then show ?thesis
    using is_list_node [OF assms(1), of "k - 1"] by (simp add: next_at_def assms(2))
qed

lemma is_list_node_next:
  assumes "is_list h l as" and "Suc k < length as"
  shows "\<exists>d. h (as ! Suc k) = Some \<lparr>data = d, prevPtr = Some (as ! k), nextPtr = next_at as (Suc k)\<rparr>"
  using is_list_node [OF assms(1), of "Suc k"] assms(2) by (simp add: prev_at_def)

lemma data_at_upd [simp]:
  "data_at (h(a \<mapsto> n)) c = (if c = a then Some (data n) else data_at h c)"
  by (simp add: data_at_def)

text \<open>
  What an exchange of the nodes at the positions \<open>i < m\<close> has to do to the heap: the two
  nodes take each other's places, their outer neighbours point at the new occupants, and no
  other node changes.
\<close>

lemma swap_linked:
  assumes dist: "distinct as" and im: "i < m" "m < length as"
    and links: "\<And>k. k < length as \<Longrightarrow> linked_at h as k"
    and F1: "\<And>k. k < length as \<Longrightarrow> k \<noteq> i \<Longrightarrow> k \<noteq> m \<Longrightarrow> Suc k \<noteq> i \<Longrightarrow> Suc k \<noteq> m
               \<Longrightarrow> k \<noteq> Suc i \<Longrightarrow> k \<noteq> Suc m \<Longrightarrow> h' (as ! k) = h (as ! k)"
    and Fm: "node_ok h' (as ! m) (prev_at as i) (if m = Suc i then Some (as ! i) else next_at as i)"
    and Fi: "node_ok h' (as ! i) (if m = Suc i then Some (as ! m) else prev_at as m) (next_at as m)"
    and Fp: "0 < i \<Longrightarrow> node_ok h' (as ! (i - 1)) (prev_at as (i - 1)) (Some (as ! m))"
    and Fn: "Suc m < length as \<Longrightarrow> node_ok h' (as ! Suc m) (Some (as ! i)) (next_at as (Suc m))"
    and Fa: "Suc i < m \<Longrightarrow> node_ok h' (as ! Suc i) (Some (as ! m))
               (if Suc (Suc i) = m then Some (as ! i) else next_at as (Suc i))"
    and Fb: "Suc i < m \<Longrightarrow> node_ok h' (as ! (m - 1))
               (if Suc (Suc i) = m then Some (as ! m) else prev_at as (m - 1)) (Some (as ! i))"
    and k: "k < length as"
  shows "linked_at h' (as[i := as ! m, m := as ! i]) k"
proof -
  consider (i) "k = i" | (m) "k = m" | (p) "Suc k = i" | (n) "k = Suc m"
    | (a) "k = Suc i" "Suc i < m" | (b) "Suc k = m" "Suc i < m"
    | (other) "k \<noteq> i" "k \<noteq> m" "Suc k \<noteq> i" "Suc k \<noteq> m" "k \<noteq> Suc i" "k \<noteq> Suc m"
    using im by linarith
  then show ?thesis
  proof cases
    case i
    then show ?thesis
      using Fm im by (auto simp: linked_at_node_ok prev_at_def next_at_def nth_list_update)
  next
    case m
    have "(i = m - Suc 0) = (m = Suc i)"
      using im by arith
    with m show ?thesis
      using Fi im by (auto simp: linked_at_node_ok prev_at_def next_at_def nth_list_update)
  next
    case p
    then show ?thesis
      using Fp im by (auto simp: linked_at_node_ok prev_at_def next_at_def nth_list_update)
  next
    case n
    then show ?thesis
      using Fn im k by (auto simp: linked_at_node_ok prev_at_def next_at_def nth_list_update)
  next
    case a
    then show ?thesis
      using Fa im by (auto simp: linked_at_node_ok prev_at_def next_at_def nth_list_update)
  next
    case b
    have "(i = k - Suc 0) = (Suc i = k)"
      using b im by arith
    with b show ?thesis
      using Fb im by (auto simp: linked_at_node_ok prev_at_def next_at_def nth_list_update)
  next
    case other
    then show ?thesis
      using F1 [OF k] links [OF k] im k
      by (auto simp: linked_at_def prev_at_def next_at_def nth_list_update)
  qed
qed


lemma node_ok_upd [simp]:
  "node_ok (h(a \<mapsto> n)) c p q = (if c = a then prevPtr n = p \<and> nextPtr n = q else node_ok h c p q)"
  by (simp add: node_ok_def)

lemma node_ok_live: "h c = Some n \<Longrightarrow> node_ok h c p q = (prevPtr n = p \<and> nextPtr n = q)"
  by (simp add: node_ok_def)

text \<open>
  \<open>SwapSuccessiveNodes\<close> and \<open>SwapNonSuccessiveNodes\<close>, run on nodes given by their
  addresses: \<open>a\<close> comes before \<open>b\<close>; \<open>pp\<close> is the pointer before \<open>a\<close> and \<open>qq\<close> the one
  after \<open>b\<close>, each of them null or a node of the list.
\<close>

lemma SwapSuccessive_exec:
  assumes A: "h a = Some \<lparr>data = da, prevPtr = pp, nextPtr = Some b\<rparr>"
    and B: "h b = Some \<lparr>data = db, prevPtr = Some a, nextPtr = qq\<rparr>"
    and ab: "a \<noteq> b"
    and P: "case pp of None \<Rightarrow> firstPtr l = Some a
            | Some p \<Rightarrow> Some a \<noteq> firstPtr l \<and> p \<noteq> a \<and> p \<noteq> b \<and> qq \<noteq> Some p
                \<and> (\<exists>n. h p = Some n \<and> nextPtr n = Some a)"
    and Q: "case qq of None \<Rightarrow> lastPtr l = Some b
            | Some q \<Rightarrow> Some b \<noteq> lastPtr l \<and> q \<noteq> a \<and> q \<noteq> b
                \<and> (\<exists>n. h q = Some n \<and> prevPtr n = Some b)"
  shows "\<exists>h'. SwapSuccessiveNodes h l (Some a) (Some b)
             = Inr (h', l\<lparr>firstPtr := (if pp = None then Some b else firstPtr l),
                          lastPtr := (if qq = None then Some a else lastPtr l)\<rparr>)
           \<and> node_ok h' b pp (Some a) \<and> node_ok h' a (Some b) qq
           \<and> (\<forall>p. pp = Some p \<longrightarrow> node_ok h' p (prevPtr (the (h p))) (Some b))
           \<and> (\<forall>q. qq = Some q \<longrightarrow> node_ok h' q (Some a) (nextPtr (the (h q))))
           \<and> (\<forall>c. c \<noteq> a \<longrightarrow> c \<noteq> b \<longrightarrow> pp \<noteq> Some c \<longrightarrow> qq \<noteq> Some c \<longrightarrow> h' c = h c)
           \<and> (\<forall>c. data_at h' c = data_at h c)"
proof (cases pp)
  case None
  note pn = None
  show ?thesis
  proof (cases qq)
    case None
    show ?thesis
      using A B ab P Q pn None
      by (simp add: SwapSuccessiveNodes_def prims data_at_def)
  next
    case (Some q)
    from Q Some obtain nq where "h q = Some nq" "prevPtr nq = Some b"
      by auto
    then show ?thesis
      using A B ab P Q pn Some
      by (simp add: SwapSuccessiveNodes_def prims data_at_def)
  qed
next
  case (Some p)
  note ps = Some
  from P Some obtain np where np: "h p = Some np" "nextPtr np = Some a"
    by auto
  show ?thesis
  proof (cases qq)
    case None
    show ?thesis
      using A B ab P Q ps None np
      by (simp add: SwapSuccessiveNodes_def prims data_at_def)
  next
    case (Some q)
    from Q Some obtain nq where "h q = Some nq" "prevPtr nq = Some b"
      by auto
    then show ?thesis
      using A B ab P Q ps Some np
      by (simp add: SwapSuccessiveNodes_def prims data_at_def)
  qed
qed


lemmas swap_defs = SwapNodes_def SwapNonSuccessiveNodes_def update_previous_pointers_def
  update_next_pointers_def

lemma SwapNonSuccessive_exec:
  assumes A: "h a = Some \<lparr>data = da, prevPtr = pa, nextPtr = Some x\<rparr>"
    and B: "h b = Some \<lparr>data = db, prevPtr = Some y, nextPtr = qb\<rparr>"
    and X: "h x = Some \<lparr>data = dx, prevPtr = Some a, nextPtr = qx\<rparr>"
    and Y: "h y = Some \<lparr>data = dy, prevPtr = py, nextPtr = Some b\<rparr>"
    and ne: "a \<noteq> b" "x \<noteq> a" "x \<noteq> b" "y \<noteq> a" "y \<noteq> b"
    and P: "case pa of None \<Rightarrow> firstPtr l = Some a
            | Some p \<Rightarrow> Some a \<noteq> firstPtr l \<and> Some b \<noteq> firstPtr l
                \<and> p \<noteq> a \<and> p \<noteq> b \<and> p \<noteq> x \<and> p \<noteq> y \<and> qb \<noteq> Some p
                \<and> (\<exists>n. h p = Some n \<and> nextPtr n = Some a)"
    and Q: "case qb of None \<Rightarrow> lastPtr l = Some b
            | Some q \<Rightarrow> Some b \<noteq> lastPtr l \<and> Some a \<noteq> lastPtr l
                \<and> q \<noteq> a \<and> q \<noteq> b \<and> q \<noteq> x \<and> q \<noteq> y
                \<and> (\<exists>n. h q = Some n \<and> prevPtr n = Some b)"
  shows "\<exists>h'. SwapNodes h l (Some b) (Some a)
             = Inr (h', l\<lparr>firstPtr := (if pa = None then Some b else firstPtr l),
                          lastPtr := (if qb = None then Some a else lastPtr l)\<rparr>)
           \<and> node_ok h' b pa (Some x) \<and> node_ok h' a (Some y) qb
           \<and> node_ok h' x (Some b) (if x = y then Some a else qx)
           \<and> node_ok h' y (if x = y then Some b else py) (Some a)
           \<and> (\<forall>p. pa = Some p \<longrightarrow> node_ok h' p (prevPtr (the (h p))) (Some b))
           \<and> (\<forall>q. qb = Some q \<longrightarrow> node_ok h' q (Some a) (nextPtr (the (h q))))
           \<and> (\<forall>c. c \<noteq> a \<longrightarrow> c \<noteq> b \<longrightarrow> c \<noteq> x \<longrightarrow> c \<noteq> y \<longrightarrow> pa \<noteq> Some c \<longrightarrow> qb \<noteq> Some c
                  \<longrightarrow> h' c = h c)
           \<and> (\<forall>c. data_at h' c = data_at h c)"
proof -
  have X': "h y = Some \<lparr>data = dx, prevPtr = Some a, nextPtr = Some b\<rparr> \<and> qx = Some b \<and> py = Some a"
    if "x = y"
    using X Y that by auto
  note ne' = ne ne [symmetric]
  have Pf: "firstPtr l = Some a" if "pa = None"
    using P that by simp
  have Ps: "Some a \<noteq> firstPtr l" "Some b \<noteq> firstPtr l" "p \<noteq> a" "p \<noteq> b" "p \<noteq> x" "p \<noteq> y"
    "a \<noteq> p" "b \<noteq> p" "x \<noteq> p" "y \<noteq> p" "qb \<noteq> Some p"
    "\<exists>d pp. h p = Some \<lparr>data = d, prevPtr = pp, nextPtr = Some a\<rparr>"
    if "pa = Some p" for p
  proof -
    from P that obtain n where "h p = Some n" "nextPtr n = Some a"
      by auto
    then have "h p = Some \<lparr>data = data n, prevPtr = prevPtr n, nextPtr = Some a\<rparr>"
      by simp
    then show "\<exists>d pp. h p = Some \<lparr>data = d, prevPtr = pp, nextPtr = Some a\<rparr>"
      by blast
  qed (use P that in auto)
  have Ql: "lastPtr l = Some b" if "qb = None"
    using Q that by simp
  have Qs: "Some b \<noteq> lastPtr l" "Some a \<noteq> lastPtr l" "q \<noteq> a" "q \<noteq> b" "q \<noteq> x" "q \<noteq> y"
    "a \<noteq> q" "b \<noteq> q" "x \<noteq> q" "y \<noteq> q"
    "\<exists>d qq. h q = Some \<lparr>data = d, prevPtr = Some b, nextPtr = qq\<rparr>"
    if "qb = Some q" for q
  proof -
    from Q that obtain n where "h q = Some n" "prevPtr n = Some b"
      by auto
    then have "h q = Some \<lparr>data = data n, prevPtr = Some b, nextPtr = nextPtr n\<rparr>"
      by simp
    then show "\<exists>d qq. h q = Some \<lparr>data = d, prevPtr = Some b, nextPtr = qq\<rparr>"
      by blast
  qed (use Q that in auto)
  show ?thesis
  proof (cases pa)
    case None
    note pn = None Pf [OF None]
    show ?thesis
    proof (cases qb)
      case None
      note qn = None Ql [OF None]
      show ?thesis
      proof (cases "x = y")
        case True
        then show ?thesis
          using A B X' ne' pn qn
          by (simp add: swap_defs prims data_at_def)
      next
        case False
        then show ?thesis
          using A B X Y ne' pn qn
          by (simp add: swap_defs prims data_at_def)
      qed
    next
      case (Some q)
      from Qs(11) [OF Some] obtain dq qq where nq: "h q = Some \<lparr>data = dq, prevPtr = Some b, nextPtr = qq\<rparr>"
        by blast
      note qs = Some Qs(1-10) [OF Some] nq
      show ?thesis
      proof (cases "x = y")
        case True
        then show ?thesis
          using A B X' ne' pn qs
          by (simp add: swap_defs prims data_at_def)
      next
        case False
        then show ?thesis
          using A B X Y ne' pn qs
          by (simp add: swap_defs prims data_at_def)
      qed
    qed
  next
    case (Some p)
    from Ps(12) [OF Some] obtain dp pp where np: "h p = Some \<lparr>data = dp, prevPtr = pp, nextPtr = Some a\<rparr>"
      by blast
    note ps = Some Ps(1-11) [OF Some] np
    show ?thesis
    proof (cases qb)
      case None
      note qn = None Ql [OF None]
      show ?thesis
      proof (cases "x = y")
        case True
        then show ?thesis
          using A B X' ne' ps qn
          by (simp add: swap_defs prims data_at_def)
      next
        case False
        then show ?thesis
          using A B X Y ne' ps qn
          by (simp add: swap_defs prims data_at_def)
      qed
    next
      case (Some q)
      from Qs(11) [OF Some] obtain dq qq where nq: "h q = Some \<lparr>data = dq, prevPtr = Some b, nextPtr = qq\<rparr>"
        by blast
      note qs = Some Qs(1-10) [OF Some] nq
      have pq: "p \<noteq> q" "q \<noteq> p"
        using ps qs by auto
      show ?thesis
      proof (cases "x = y")
        case True
        then show ?thesis
          using A B X' ne' ps qs pq
          by (simp add: swap_defs prims data_at_def)
      next
        case False
        then show ?thesis
          using A B X Y ne' ps qs pq
          by (simp add: swap_defs prims data_at_def)
      qed
    qed
  qed
qed


lemma SwapNodes_successive:
  assumes "h b = Some nb" and "prevPtr nb = Some a" and "nextPtr nb \<noteq> Some a" and "a \<noteq> b"
  shows "SwapNodes h l (Some b) (Some a) = SwapSuccessiveNodes h l (Some a) (Some b)"
  using assms by (simp add: SwapNodes_def)

lemma is_list_ends:
  assumes "is_list h l as" and "as \<noteq> []"
  shows "firstPtr l = Some (as ! 0)" and "lastPtr l = Some (as ! (length as - 1))"
  using assms by (simp_all add: is_list_iff_linked ptr_at_def)

lemma prev_at_cases:
  "prev_at as i = (if i = 0 then None else Some (as ! (i - 1)))"
  by (simp add: prev_at_def)

lemma swapped_is_list:
  assumes il: "is_list h l as" and im: "i < m" "m < length as"
    and l': "l' = l\<lparr>firstPtr := (if prev_at as i = None then Some (as ! m) else firstPtr l),
                      lastPtr := (if next_at as m = None then Some (as ! i) else lastPtr l)\<rparr>"
    and linked: "\<And>k. k < length as \<Longrightarrow> linked_at h' (as[i := as ! m, m := as ! i]) k"
  shows "is_list h' l' (as[i := as ! m, m := as ! i])"
proof -
  let ?as' = "as[i := as ! m, m := as ! i]"
  have ne: "as \<noteq> []"
    using im by auto
  note ends = is_list_ends [OF il ne]
  have "distinct ?as'"
    using il im by (simp add: is_list_def distinct_swap)
  moreover have "numberOfNodes l' = length ?as'"
    using il l' by (simp add: is_list_def)
  moreover have "firstPtr l' = ptr_at ?as' 0"
    using l' ends im by (auto simp: ptr_at_def prev_at_def nth_list_update)
  moreover have "lastPtr l' = (if ?as' = [] then None else Some (?as' ! (length ?as' - 1)))"
  proof (cases "Suc m < length as")
    case True
    then have "length as - 1 \<noteq> m" "length as - 1 \<noteq> i"
      using im by arith+
    then show ?thesis
      using l' ends ne True by (simp add: next_at_def nth_list_update)
  next
    case False
    then have "length as - 1 = m"
      using im by arith
    then show ?thesis
      using l' ne False im by (simp add: next_at_def nth_list_update)
  qed
  ultimately show ?thesis
    using linked by (simp add: is_list_iff_linked)
qed

text \<open>
  \<open>SwapNodes\<close> on the nodes at the positions \<open>i < m\<close> of a well-formed list returns a
  well-formed list, with the two nodes exchanged and every value where it was.
\<close>

lemma SwapNodes_is_list:
  assumes il: "is_list h l as" and im: "i < m" "m < length as"
  shows "\<exists>h' l'. SwapNodes h l (Some (as ! m)) (Some (as ! i)) = Inr (h', l')
           \<and> is_list h' l' (as[i := as ! m, m := as ! i])
           \<and> (\<forall>c. data_at h' c = data_at h c)"
proof -
  let ?n = "length as"
  let ?a = "as ! i" and ?b = "as ! m"
  let ?as' = "as[i := as ! m, m := as ! i]"
  from il have dist: "distinct as" and cnt: "numberOfNodes l = length as"
    and links: "\<And>k. k < length as \<Longrightarrow> linked_at h as k"
    by (simp_all add: is_list_iff_linked)
  have ne: "as \<noteq> []"
    using im by auto
  note ends = is_list_ends [OF il ne]
  note eq = nth_eq_iff_index_eq [OF dist]
  have i: "i < ?n"
    using im by simp
  from is_list_node [OF il i] obtain da where
    A: "h ?a = Some \<lparr>data = da, prevPtr = prev_at as i, nextPtr = next_at as i\<rparr>"
    by blast
  from is_list_node [OF il im(2)] obtain db where
    B: "h ?b = Some \<lparr>data = db, prevPtr = prev_at as m, nextPtr = next_at as m\<rparr>"
    by blast
  have ab: "?a \<noteq> ?b"
    using im by (simp add: eq)
  have nai: "next_at as i = Some (as ! Suc i)" and pbm: "prev_at as m = Some (as ! (m - 1))"
    using im by (simp_all add: next_at_def prev_at_def)
  have P: "case prev_at as i of None \<Rightarrow> firstPtr l = Some ?a
           | Some p \<Rightarrow> Some ?a \<noteq> firstPtr l \<and> Some ?b \<noteq> firstPtr l
               \<and> p \<noteq> ?a \<and> p \<noteq> ?b \<and> p \<noteq> as ! Suc i \<and> p \<noteq> as ! (m - 1)
               \<and> next_at as m \<noteq> Some p
               \<and> (\<exists>n. h p = Some n \<and> nextPtr n = Some ?a)"
  proof (cases "i = 0")
    case True
    then show ?thesis
      using ends by (simp add: prev_at_def)
  next
    case False
    have "i - 1 < ?n" "i - 1 \<noteq> i" "i - 1 \<noteq> m" "i - 1 \<noteq> Suc i" "i - 1 \<noteq> m - 1" "i - 1 \<noteq> Suc m" "0 < ?n"
      "0 \<noteq> i" "0 \<noteq> m" "Suc i < ?n" "m - 1 < ?n"
      using False im by arith+
    moreover from is_list_node_prev [OF il i] False
    have "\<exists>n. h (as ! (i - 1)) = Some n \<and> nextPtr n = Some ?a"
      by auto
    ultimately show ?thesis
      using False ends im by (simp add: prev_at_def next_at_def eq)
  qed
  have Q: "case next_at as m of None \<Rightarrow> lastPtr l = Some ?b
           | Some q \<Rightarrow> Some ?b \<noteq> lastPtr l \<and> Some ?a \<noteq> lastPtr l
               \<and> q \<noteq> ?a \<and> q \<noteq> ?b \<and> q \<noteq> as ! Suc i \<and> q \<noteq> as ! (m - 1)
               \<and> (\<exists>n. h q = Some n \<and> prevPtr n = Some ?b)"
  proof (cases "Suc m < ?n")
    case False
    then have "?n - 1 = m"
      using im by arith
    then show ?thesis
      using False ends by (simp add: next_at_def)
  next
    case True
    have "m \<noteq> ?n - 1" "i \<noteq> ?n - 1" "?n - 1 < ?n" "Suc m \<noteq> i" "Suc m \<noteq> m" "Suc m \<noteq> Suc i" "Suc m \<noteq> m - 1"
      "Suc i < ?n" "m - 1 < ?n"
      using True im by arith+
    moreover from is_list_node_next [OF il True]
    have "\<exists>n. h (as ! Suc m) = Some n \<and> prevPtr n = Some ?b"
      by auto
    ultimately show ?thesis
      using True ends im by (simp add: next_at_def eq)
  qed
  have prevs: "prevPtr (the (h (as ! k))) = prev_at as k" "nextPtr (the (h (as ! k))) = next_at as k"
    if "k < ?n" for k
    using is_list_node [OF il that] by auto
  have run: "\<exists>h'. SwapNodes h l (Some ?b) (Some ?a)
             = Inr (h', l\<lparr>firstPtr := (if prev_at as i = None then Some ?b else firstPtr l),
                          lastPtr := (if next_at as m = None then Some ?a else lastPtr l)\<rparr>)
        \<and> (\<forall>k<?n. linked_at h' ?as' k) \<and> (\<forall>c. data_at h' c = data_at h c)"
  proof (cases "m = Suc i")
    case True
    have A': "h ?a = Some \<lparr>data = da, prevPtr = prev_at as i, nextPtr = Some ?b\<rparr>"
      using A nai True by simp
    have B': "h ?b = Some \<lparr>data = db, prevPtr = Some ?a, nextPtr = next_at as m\<rparr>"
      using B pbm True by simp
    have P': "case prev_at as i of None \<Rightarrow> firstPtr l = Some ?a
            | Some p \<Rightarrow> Some ?a \<noteq> firstPtr l \<and> p \<noteq> ?a \<and> p \<noteq> ?b \<and> next_at as m \<noteq> Some p
                \<and> (\<exists>n. h p = Some n \<and> nextPtr n = Some ?a)"
      using P by (auto split: option.splits)
    have Q': "case next_at as m of None \<Rightarrow> lastPtr l = Some ?b
            | Some q \<Rightarrow> Some ?b \<noteq> lastPtr l \<and> q \<noteq> ?a \<and> q \<noteq> ?b
                \<and> (\<exists>n. h q = Some n \<and> prevPtr n = Some ?b)"
      using Q by (auto split: option.splits)
    have nn: "next_at as m \<noteq> Some ?a"
      using Q by (auto split: option.splits)
    have sw: "SwapNodes h l (Some ?b) (Some ?a) = SwapSuccessiveNodes h l (Some ?a) (Some ?b)"
      using B' nn ab by (intro SwapNodes_successive [where nb = "\<lparr>data = db, prevPtr = Some ?a, nextPtr = next_at as m\<rparr>"]) simp_all
    from SwapSuccessive_exec [OF A' B' ab P' Q'] obtain h' where
      r: "SwapSuccessiveNodes h l (Some ?a) (Some ?b)
            = Inr (h', l\<lparr>firstPtr := (if prev_at as i = None then Some ?b else firstPtr l),
                          lastPtr := (if next_at as m = None then Some ?a else lastPtr l)\<rparr>)"
      and Fb: "node_ok h' ?b (prev_at as i) (Some ?a)" and Fa: "node_ok h' ?a (Some ?b) (next_at as m)"
      and Fp: "\<And>p. prev_at as i = Some p \<Longrightarrow> node_ok h' p (prevPtr (the (h p))) (Some ?b)"
      and Fq: "\<And>q. next_at as m = Some q \<Longrightarrow> node_ok h' q (Some ?a) (nextPtr (the (h q)))"
      and frame: "\<And>c. c \<noteq> ?a \<Longrightarrow> c \<noteq> ?b \<Longrightarrow> prev_at as i \<noteq> Some c \<Longrightarrow> next_at as m \<noteq> Some c \<Longrightarrow> h' c = h c"
      and kd: "\<forall>c. data_at h' c = data_at h c"
      by blast
    have "linked_at h' ?as' k" if k: "k < ?n" for k
      using dist im links _ _ _ _ _ _ _ k
    proof (rule swap_linked)
      show "node_ok h' ?b (prev_at as i) (if m = Suc i then Some ?a else next_at as i)"
        using Fb True by simp
      show "node_ok h' ?a (if m = Suc i then Some ?b else prev_at as m) (next_at as m)"
        using Fa True by simp
      show "node_ok h' (as ! (i - 1)) (prev_at as (i - 1)) (Some ?b)" if "0 < i"
      proof -
        have "i - 1 < ?n"
          using i by arith
        then show ?thesis
          using Fp [of "as ! (i - 1)"] that prevs(1) [of "i - 1"] by (simp add: prev_at_def)
      qed
      show "node_ok h' (as ! Suc m) (Some ?a) (next_at as (Suc m))" if "Suc m < ?n"
        using Fq [of "as ! Suc m"] that prevs(2) [OF that] by (simp add: next_at_def)
      show "h' (as ! j) = h (as ! j)"
        if "j < ?n" "j \<noteq> i" "j \<noteq> m" "Suc j \<noteq> i" "Suc j \<noteq> m" "j \<noteq> Suc i" "j \<noteq> Suc m" for j
      proof (rule frame)
        have "i - 1 < ?n" "i - 1 \<noteq> j" if "0 < i"
          using i \<open>Suc j \<noteq> i\<close> that by arith+
        then show "prev_at as i \<noteq> Some (as ! j)"
          using that(1) by (auto simp: prev_at_def eq)
        show "next_at as m \<noteq> Some (as ! j)"
          using that by (auto simp: next_at_def eq)
      qed (use that i im in \<open>simp_all add: eq\<close>)
    qed (use True in simp_all)
    then show ?thesis
      using sw r kd by auto
  next
    case False
    then have far: "Suc i < m"
      using im by arith
    let ?x = "as ! Suc i" and ?y = "as ! (m - 1)"
    have idx: "Suc i < ?n" "m - 1 < ?n" "0 < m" "Suc i \<noteq> i" "Suc i \<noteq> m" "m - 1 \<noteq> i" "m - 1 \<noteq> m"
      using far im by arith+
    from is_list_node_next [OF il idx(1)] obtain dx where
      X: "h ?x = Some \<lparr>data = dx, prevPtr = Some ?a, nextPtr = next_at as (Suc i)\<rparr>"
      by blast
    from is_list_node_prev [OF il im(2) idx(3)] obtain dy where
      Y: "h ?y = Some \<lparr>data = dy, prevPtr = prev_at as (m - 1), nextPtr = Some ?b\<rparr>"
      by blast
    have A': "h ?a = Some \<lparr>data = da, prevPtr = prev_at as i, nextPtr = Some ?x\<rparr>"
      using A nai by simp
    have B': "h ?b = Some \<lparr>data = db, prevPtr = Some ?y, nextPtr = next_at as m\<rparr>"
      using B pbm by simp
    have nes: "?a \<noteq> ?b" "?x \<noteq> ?a" "?x \<noteq> ?b" "?y \<noteq> ?a" "?y \<noteq> ?b"
      using idx i im by (simp_all add: eq)
    have xy: "(?x = ?y) = (Suc (Suc i) = m)"
      using idx far by (auto simp: eq)
    from SwapNonSuccessive_exec [OF A' B' X Y nes P Q] obtain h' where
      r: "SwapNodes h l (Some ?b) (Some ?a)
            = Inr (h', l\<lparr>firstPtr := (if prev_at as i = None then Some ?b else firstPtr l),
                          lastPtr := (if next_at as m = None then Some ?a else lastPtr l)\<rparr>)"
      and Fb: "node_ok h' ?b (prev_at as i) (Some ?x)" and Fa: "node_ok h' ?a (Some ?y) (next_at as m)"
      and Fx: "node_ok h' ?x (Some ?b) (if ?x = ?y then Some ?a else next_at as (Suc i))"
      and Fy: "node_ok h' ?y (if ?x = ?y then Some ?b else prev_at as (m - 1)) (Some ?a)"
      and Fp: "\<And>p. prev_at as i = Some p \<Longrightarrow> node_ok h' p (prevPtr (the (h p))) (Some ?b)"
      and Fq: "\<And>q. next_at as m = Some q \<Longrightarrow> node_ok h' q (Some ?a) (nextPtr (the (h q)))"
      and frame: "\<And>c. c \<noteq> ?a \<Longrightarrow> c \<noteq> ?b \<Longrightarrow> c \<noteq> ?x \<Longrightarrow> c \<noteq> ?y \<Longrightarrow> prev_at as i \<noteq> Some c
                    \<Longrightarrow> next_at as m \<noteq> Some c \<Longrightarrow> h' c = h c"
      and kd: "\<forall>c. data_at h' c = data_at h c"
      by blast
    have "linked_at h' ?as' k" if k: "k < ?n" for k
      using dist im links _ _ _ _ _ _ _ k
    proof (rule swap_linked)
      show "node_ok h' ?b (prev_at as i) (if m = Suc i then Some ?a else next_at as i)"
        using Fb False nai by simp
      show "node_ok h' ?a (if m = Suc i then Some ?b else prev_at as m) (next_at as m)"
        using Fa False pbm by simp
      show "node_ok h' (as ! (i - 1)) (prev_at as (i - 1)) (Some ?b)" if "0 < i"
      proof -
        have "i - 1 < ?n"
          using i by arith
        then show ?thesis
          using Fp [of "as ! (i - 1)"] that prevs(1) [of "i - 1"] by (simp add: prev_at_def)
      qed
      show "node_ok h' (as ! Suc m) (Some ?a) (next_at as (Suc m))" if "Suc m < ?n"
        using Fq [of "as ! Suc m"] that prevs(2) [OF that] by (simp add: next_at_def)
      show "node_ok h' ?x (Some ?b) (if Suc (Suc i) = m then Some ?a else next_at as (Suc i))"
        using Fx xy by simp
      show "node_ok h' ?y (if Suc (Suc i) = m then Some ?b else prev_at as (m - 1)) (Some ?a)"
        using Fy xy by simp
      show "h' (as ! j) = h (as ! j)"
        if "j < ?n" "j \<noteq> i" "j \<noteq> m" "Suc j \<noteq> i" "Suc j \<noteq> m" "j \<noteq> Suc i" "j \<noteq> Suc m" for j
      proof (rule frame)
        have "i - 1 < ?n" "i - 1 \<noteq> j" if "0 < i"
          using i \<open>Suc j \<noteq> i\<close> that by arith+
        then show "prev_at as i \<noteq> Some (as ! j)"
          using that(1) by (auto simp: prev_at_def eq)
        show "next_at as m \<noteq> Some (as ! j)"
          using that by (auto simp: next_at_def eq)
        have "j \<noteq> m - 1"
          using \<open>Suc j \<noteq> m\<close> idx by arith
        then show "as ! j \<noteq> ?y"
          using that(1) idx by (simp add: eq)
      qed (use that i im idx in \<open>simp_all add: eq\<close>)
    qed
    then show ?thesis
      using r kd by auto
  qed
  then obtain h' where
    r: "SwapNodes h l (Some ?b) (Some ?a)
             = Inr (h', l\<lparr>firstPtr := (if prev_at as i = None then Some ?b else firstPtr l),
                          lastPtr := (if next_at as m = None then Some ?a else lastPtr l)\<rparr>)"
    and lk: "\<And>k. k < ?n \<Longrightarrow> linked_at h' ?as' k" and kd: "\<forall>c. data_at h' c = data_at h c"
    by blast
  have "is_list h' (l\<lparr>firstPtr := (if prev_at as i = None then Some ?b else firstPtr l),
                      lastPtr := (if next_at as m = None then Some ?a else lastPtr l)\<rparr>) ?as'"
    using il im _ lk by (rule swapped_is_list) simp
  then show ?thesis
    using r kd by blast
qed


lemma node_full:
  assumes "is_list h l as" and "holds h as xs" and "k < length as"
  shows "h (as ! k) = Some \<lparr>data = xs ! k, prevPtr = prev_at as k, nextPtr = next_at as k\<rparr>"
proof -
  from is_list_node [OF assms(1,3)] obtain d where
    n: "h (as ! k) = Some \<lparr>data = d, prevPtr = prev_at as k, nextPtr = next_at as k\<rparr>"
    by blast
  moreover have "map_option data (h (as ! k)) = Some (xs ! k)"
    using assms(2,3) by (rule holds_nth)
  ultimately show ?thesis
    by simp
qed

lemma next_at_ptr_at: "next_at as k = ptr_at as (Suc k)"
  by (simp add: next_at_def ptr_at_def)

text \<open>
  \<open>FindMinimum\<close> from the node at position \<open>i\<close> returns a node at a position \<open>m \<ge> i\<close> whose
  value is least among the values from position \<open>i\<close> on.
\<close>

lemma FindMinimum_from_None: "FindMinimum_from h None minNode = Some (Inr minNode)"
  by (subst FindMinimum_from.simps) simp

lemma FindMinimum_from_step:
  assumes "h c = Some nc" and "h m = Some nm"
  shows "FindMinimum_from h (Some c) (Some m)
           = FindMinimum_from h (nextPtr nc) (if data nc < data nm then Some c else Some m)"
  using assms by (subst FindMinimum_from.simps) simp

lemma FindMinimum_from_is_list:
  assumes il: "is_list h l as" and ho: "holds h as xs"
    and "i \<le> m" and "m < j" and "j \<le> length as"
    and "\<forall>k. i \<le> k \<and> k < j \<longrightarrow> xs ! m \<le> xs ! k"
  shows "\<exists>m'. FindMinimum_from h (ptr_at as j) (Some (as ! m)) = Some (Inr (Some (as ! m')))
           \<and> i \<le> m' \<and> m' < length as \<and> (\<forall>k. i \<le> k \<and> k < length as \<longrightarrow> xs ! m' \<le> xs ! k)"
  using assms(3-)
proof (induction "length as - j" arbitrary: j m)
  case 0
  then have "ptr_at as j = None" "j = length as"
    by (simp_all add: ptr_at_def)
  then show ?case
    using 0 by (auto simp: FindMinimum_from_None)
next
  case (Suc d)
  then have j: "j < length as" and m: "m < length as"
    by arith+
  let ?m' = "if xs ! j < xs ! m then j else m"
  note nj = node_full [OF il ho j] and nm = node_full [OF il ho m]
  have step: "FindMinimum_from h (ptr_at as j) (Some (as ! m))
                = FindMinimum_from h (ptr_at as (Suc j)) (Some (as ! ?m'))"
    using FindMinimum_from_step [where h = h and c = "as ! j" and m = "as ! m", OF nj nm] j by (simp add: ptr_at_def next_at_ptr_at)
  have "\<exists>m'. FindMinimum_from h (ptr_at as (Suc j)) (Some (as ! ?m')) = Some (Inr (Some (as ! m')))
           \<and> i \<le> m' \<and> m' < length as \<and> (\<forall>k. i \<le> k \<and> k < length as \<longrightarrow> xs ! m' \<le> xs ! k)"
  proof (rule Suc.hyps(1))
    show "d = length as - Suc j"
      using Suc.hyps(2) by arith
    show "i \<le> ?m'" "?m' < Suc j" "Suc j \<le> length as"
      using Suc.prems j by auto
    show "\<forall>k. i \<le> k \<and> k < Suc j \<longrightarrow> xs ! ?m' \<le> xs ! k"
    proof (intro allI impI)
      fix k assume k: "i \<le> k \<and> k < Suc j"
      show "xs ! ?m' \<le> xs ! k"
      proof (cases "k = j")
        case True
        then show ?thesis by auto
      next
        case False
        then have "xs ! m \<le> xs ! k"
          using k Suc.prems(4) by auto
        then show ?thesis by auto
      qed
    qed
  qed
  then show ?case
    using step by simp
qed

lemma FindMinimum_is_list:
  assumes il: "is_list h l as" and ho: "holds h as xs" and i: "i < length as"
  shows "\<exists>m. FindMinimum h l (Some (as ! i)) = Some (Inr (Some (as ! m)))
           \<and> i \<le> m \<and> m < length as \<and> (\<forall>k. i \<le> k \<and> k < length as \<longrightarrow> xs ! m \<le> xs ! k)"
proof -
  have "\<not> isEmpty l"
    using il i by (auto simp: is_list_def isEmpty_def)
  then have "FindMinimum h l (Some (as ! i)) = FindMinimum_from h (ptr_at as (Suc i)) (Some (as ! i))"
    using node_full [OF il ho i] by (simp add: FindMinimum_def next_at_ptr_at)
  moreover have "\<exists>m. FindMinimum_from h (ptr_at as (Suc i)) (Some (as ! i)) = Some (Inr (Some (as ! m)))
           \<and> i \<le> m \<and> m < length as \<and> (\<forall>k. i \<le> k \<and> k < length as \<longrightarrow> xs ! m \<le> xs ! k)"
    using il ho
  proof (rule FindMinimum_from_is_list)
    show "\<forall>k. i \<le> k \<and> k < Suc i \<longrightarrow> xs ! i \<le> xs ! k"
      by (auto simp: less_Suc_eq_le)
  qed (use i in auto)
  ultimately show ?thesis
    by simp
qed


lemma SwapNodes_min:
  assumes il: "is_list h l as" and im: "i \<le> m" "m < length as"
  shows "\<exists>h' l'. SwapNodes h l (Some (as ! m)) (Some (as ! i)) = Inr (h', l')
           \<and> is_list h' l' (as[i := as ! m, m := as ! i])
           \<and> (\<forall>c. data_at h' c = data_at h c)"
proof (cases "i = m")
  case True
  then show ?thesis
    using il by (simp add: SwapNodes_def)
next
  case False
  then have "i < m"
    using im by arith
  with il show ?thesis
    using im(2) by (rule SwapNodes_is_list)
qed

lemma holds_swap:
  assumes ho: "holds h as xs" and d: "\<forall>c. data_at h' c = data_at h c"
    and i: "i < length as" and m: "m < length as"
  shows "holds h' (as[i := as ! m, m := as ! i]) (xs[i := xs ! m, m := xs ! i])"
proof -
  have e: "data_at h' = data_at h"
    using d by (simp add: fun_eq_iff)
  have a: "map (data_at h) as = map Some xs"
    using ho by (simp add: holds_data_at)
  have "data_at h (as ! i) = Some (xs ! i)" "data_at h (as ! m) = Some (xs ! m)"
    using holds_nth [OF ho i] holds_nth [OF ho m] by (simp_all add: data_at_def)
  then show ?thesis
    by (simp add: holds_data_at e map_update a)
qed

lemma swap_min_prefix:
  fixes xs :: "'a::linorder list"
  assumes inv: "\<forall>a b. a < i \<longrightarrow> a < b \<longrightarrow> b < length xs \<longrightarrow> xs ! a \<le> xs ! b"
    and im: "i \<le> m" "m < length xs"
    and mn: "\<forall>k. i \<le> k \<and> k < length xs \<longrightarrow> xs ! m \<le> xs ! k"
  shows "\<forall>a b. a < Suc i \<longrightarrow> a < b \<longrightarrow> b < length xs
           \<longrightarrow> xs[i := xs ! m, m := xs ! i] ! a \<le> xs[i := xs ! m, m := xs ! i] ! b"
proof (intro allI impI)
  fix a b
  assume a: "a < Suc i" and ab: "a < b" and b: "b < length xs"
  let ?ys = "xs[i := xs ! m, m := xs ! i]"
  have i: "i < length xs"
    using im by arith
  have ya: "?ys ! a = (if a = i then xs ! m else xs ! a)"
    using a im i by (auto simp: nth_list_update)
  have yb: "?ys ! b = (if b = m then xs ! i else if b = i then xs ! m else xs ! b)"
    using b im i by (auto simp: nth_list_update)
  show "?ys ! a \<le> ?ys ! b"
  proof (cases "a = i")
    case True
    then have "xs ! m \<le> xs ! i" "xs ! m \<le> xs ! b"
      using mn ab b i by auto
    then show ?thesis
      unfolding ya yb using True ab by auto
  next
    case False
    then have ai: "a < i"
      using a by arith
    then have "xs ! a \<le> xs ! i" "xs ! a \<le> xs ! m" "xs ! a \<le> xs ! b"
      using inv i im ab b by auto
    then show ?thesis
      unfolding ya yb using False by auto
  qed
qed

text \<open>
  The loop of \<open>Sort\<close> is a selection sort: when it is at position \<open>i\<close>, every value before
  \<open>i\<close> is at most every value after it.
\<close>

lemma Sort_from_None: "Sort_from h l None = Some (Inr (h, l))"
  by (subst Sort_from.simps) simp

lemma Sort_from_step:
  assumes "FindMinimum h l (Some s) = Some (Inr minNode)"
    and "SwapNodes h l minNode (Some s) = Inr (h1, l1)"
    and "get_next h1 minNode = Inr n"
  shows "Sort_from h l (Some s) = Sort_from h1 l1 n"
  using assms by (subst Sort_from.simps) simp

lemma Sort_from_is_list:
  assumes "is_list h l as" and "holds h as xs" and "i \<le> length as"
    and "\<forall>a b. a < i \<longrightarrow> a < b \<longrightarrow> b < length xs \<longrightarrow> xs ! a \<le> xs ! b"
  shows "\<exists>h' l' as' xs'. Sort_from h l (ptr_at as i) = Some (Inr (h', l'))
           \<and> is_list h' l' as' \<and> holds h' as' xs'
           \<and> mset as' = mset as \<and> mset xs' = mset xs \<and> sorted xs'
           \<and> (\<forall>c. data_at h' c = data_at h c)"
  using assms
proof (induction "length as - i" arbitrary: h l as xs i)
  case 0
  then have "ptr_at as i = None" and "i = length xs"
    by (simp_all add: ptr_at_def holds_length)
  moreover have "sorted xs"
    using 0(5) \<open>i = length xs\<close> by (simp add: sorted_iff_nth_mono_less)
  ultimately show ?case
    using 0(2,3) by (auto simp: Sort_from_None)
next
  case (Suc d)
  note il = Suc.prems(1) and ho = Suc.prems(2) and inv = Suc.prems(4)
  have i: "i < length as"
    using Suc.hyps(2) by arith
  have len: "length xs = length as"
    using ho by (rule holds_length)
  from FindMinimum_is_list [OF il ho i] obtain m where
    fm: "FindMinimum h l (Some (as ! i)) = Some (Inr (Some (as ! m)))"
    and im: "i \<le> m" "m < length as"
    and mn: "\<forall>k. i \<le> k \<and> k < length as \<longrightarrow> xs ! m \<le> xs ! k"
    by blast
  define as1 where "as1 = as[i := as ! m, m := as ! i]"
  define xs1 where "xs1 = xs[i := xs ! m, m := xs ! i]"
  from SwapNodes_min [OF il im] obtain h1 l1 where
    sw: "SwapNodes h l (Some (as ! m)) (Some (as ! i)) = Inr (h1, l1)"
    and il1: "is_list h1 l1 as1"
    and d1: "\<forall>c. data_at h1 c = data_at h c"
    unfolding as1_def by blast
  have ho1: "holds h1 as1 xs1"
    unfolding as1_def xs1_def using ho d1 i im(2) by (rule holds_swap)
  have len1: "length as1 = length as" "length xs1 = length xs"
    by (simp_all add: as1_def xs1_def)
  have i1: "i < length as1"
    using i len1 by simp
  have "as1 ! i = as ! m"
    using i im by (auto simp: as1_def nth_list_update)
  then have "get_next h1 (Some (as ! m)) = Inr (ptr_at as1 (Suc i))"
    using node_full [OF il1 ho1 i1] by (simp add: next_at_ptr_at get_next_def deref_def)
  with fm sw have step: "Sort_from h l (Some (as ! i)) = Sort_from h1 l1 (ptr_at as1 (Suc i))"
    by (rule Sort_from_step)
  have "\<exists>h' l' as' xs'. Sort_from h1 l1 (ptr_at as1 (Suc i)) = Some (Inr (h', l'))
           \<and> is_list h' l' as' \<and> holds h' as' xs'
           \<and> mset as' = mset as1 \<and> mset xs' = mset xs1 \<and> sorted xs'
           \<and> (\<forall>c. data_at h' c = data_at h1 c)"
  proof (rule Suc.hyps(1))
    show "d = length as1 - Suc i"
      using Suc.hyps(2) len1 by arith
    show "is_list h1 l1 as1" "holds h1 as1 xs1"
      by (rule il1, rule ho1)
    show "Suc i \<le> length as1"
      using i1 by arith
    have "\<forall>a b. a < Suc i \<longrightarrow> a < b \<longrightarrow> b < length xs \<longrightarrow> xs1 ! a \<le> xs1 ! b"
      unfolding xs1_def using inv im mn len by (intro swap_min_prefix) simp_all
    then show "\<forall>a b. a < Suc i \<longrightarrow> a < b \<longrightarrow> b < length xs1 \<longrightarrow> xs1 ! a \<le> xs1 ! b"
      using len1 by simp
  qed
  moreover have "mset as1 = mset as" "mset xs1 = mset xs"
    unfolding as1_def xs1_def using i im len by (simp_all add: mset_swap)
  moreover have "ptr_at as i = Some (as ! i)"
    using i by (simp add: ptr_at_def)
  ultimately show ?case
    using step d1 by auto
qed

lemma Sort_is_list:
  assumes il: "is_list h l as" and ho: "holds h as xs" and ne: "as \<noteq> []"
  shows "\<exists>h' l' as' xs'. Sort h l = Some (Inr (h', l'))
           \<and> is_list h' l' as' \<and> holds h' as' xs'
           \<and> mset as' = mset as \<and> mset xs' = mset xs \<and> sorted xs'
           \<and> (\<forall>c. data_at h' c = data_at h c)"
proof (cases "length as = 1")
  case True
  then have "firstPtr l = lastPtr l"
    using is_list_ends [OF il ne] by simp
  then have "Sort h l = Some (Inr (h, l))"
    by (simp add: Sort_def)
  moreover have "length xs = 1"
    using True holds_length [OF ho] by simp
  then have "sorted xs"
    by (cases xs) simp_all
  ultimately show ?thesis
    using il ho by auto
next
  case False
  then have n: "0 < length as - 1" "length as - 1 < length as"
    using ne by (cases as, simp_all)+
  have "distinct as"
    using il by (simp add: is_list_def)
  then have "as ! 0 \<noteq> as ! (length as - 1)"
    using nth_eq_iff_index_eq [of as 0 "length as - 1"] n ne by auto
  then have "firstPtr l \<noteq> lastPtr l"
    using is_list_ends [OF il ne] by simp
  moreover have "\<not> isEmpty l"
    using il ne by (simp add: isEmpty_def is_list_def)
  moreover have "firstPtr l = ptr_at as 0"
    using is_list_ends(1) [OF il ne] ne by (simp add: ptr_at_def)
  ultimately have "Sort h l = Sort_from h l (ptr_at as 0)"
    by (simp add: Sort_def)
  moreover have "\<exists>h' l' as' xs'. Sort_from h l (ptr_at as 0) = Some (Inr (h', l'))
           \<and> is_list h' l' as' \<and> holds h' as' xs'
           \<and> mset as' = mset as \<and> mset xs' = mset xs \<and> sorted xs'
           \<and> (\<forall>c. data_at h' c = data_at h c)"
    using il ho by (rule Sort_from_is_list) simp_all
  ultimately show ?thesis
    by simp
qed


text \<open>
  C5. On every list that is not empty, \<open>Sort()\<close> returns; afterwards \<open>isSorted()\<close> returns
  true, the list is made of the same nodes, and its values are the values it had, as a
  multiset (they are the sorted list of these values). On an empty list \<open>Sort()\<close> returns
  and changes nothing, and \<open>isSorted()\<close> returns false afterwards.
\<close>

theorem C5_Sort:
  assumes "is_list h l as" and "holds h as xs"
  shows "if as = []
         then Sort h l = Some (Inr (h, l)) \<and> isSorted h l = Some (Inr False)
         else \<exists>h' l' as' xs'. Sort h l = Some (Inr (h', l'))
                \<and> is_list h' l' as' \<and> holds h' as' xs'
                \<and> mset as' = mset as \<and> mset xs' = mset xs \<and> xs' = sort xs
                \<and> isSorted h' l' = Some (Inr True)"
proof (cases "as = []")
  case True
  then have "isEmpty l"
    using assms(1) by (simp add: is_list_def isEmpty_def)
  then show ?thesis
    using True by (simp add: Sort_def isSorted_def)
next
  case False
  from Sort_is_list [OF assms False] obtain h' l' as' xs' where
    run: "Sort h l = Some (Inr (h', l'))"
    and il: "is_list h' l' as'" and ho: "holds h' as' xs'"
    and ms: "mset as' = mset as" "mset xs' = mset xs" and so: "sorted xs'"
    by blast
  have "as' \<noteq> []"
    using ms(1) False by auto
  with il ho have "isSorted h' l' = Some (Inr (sorted xs'))"
    by (rule isSorted_is_list)
  moreover have "xs' = sort xs"
    using ms(2) so by (simp add: properties_for_sort)
  ultimately show ?thesis
    using False run il ho ms so by auto
qed

text \<open>The theorem at the list \<open>{3, 1, 3, 2, 1}\<close>, which becomes \<open>{1, 1, 2, 3, 3}\<close>, and at the empty list.\<close>

theorem C5_Sort_witness:
  "is_list heap_31321 list_31321 [10, 11, 12, 13, 14]
   \<and> holds heap_31321 [10, 11, 12, 13, 14] [3, 1, 3, 2, 1]
   \<and> (\<exists>h' l' as'. Sort heap_31321 list_31321 = Some (Inr (h', l'))
         \<and> is_list h' l' as' \<and> holds h' as' [1, 1, 2, 3, 3]
         \<and> isSorted h' l' = Some (Inr True))"
proof -
  have "sort [3, 1, 3, 2, 1 :: int] = [1, 1, 2, 3, 3]"
    by simp
  then show ?thesis
    using C5_Sort [OF is_list_31321] is_list_31321 by auto
qed

text \<open>The empty list after \<open>Sort()\<close>: \<open>isSorted()\<close> returns false.\<close>

theorem C5_empty_counterexample:
  "is_list (Map.empty :: int heap) List_default [] \<and> holds (Map.empty :: int heap) [] []
   \<and> Sort (Map.empty :: int heap) List_default = Some (Inr (Map.empty, List_default))
   \<and> isSorted (Map.empty :: int heap) List_default = Some (Inr False)
   \<and> isSorted (Map.empty :: int heap) List_default \<noteq> Some (Inr True)"
  by (simp add: is_list_def Sort_def isSorted_def prims)

end
